theory Spec2Isabelle
  imports Complex_Main
begin

text \<open>
  The program keeps the prices of a storefront catalog in line with the prices of a
  marketplace.  It reads the catalog page by page, fetches for each variant the
  marketplace item whose id is the variant's SKU, and writes the marketplace price back
  to the storefront when it differs from the storefront price by more than one percent.
  The source file holds two variants of the program, one after the other; they share
  their helper functions word for word and differ in the top-level function and in one
  console line.  Both are modelled here, each function under the name it has in the
  source (the second variant's with the suffix 2).

  The model is a shallow embedding.  An \<open>async\<close> function is a function from the
  state of the run to a result and a new state; an exception is the left summand of the
  result; a loop that need not terminate is a partial function whose value \<open>None\<close>
  means that it does not return.  Numbers are IEEE 754 doubles.  What is left out:
  code points above 255 in strings, the text of console lines and of request headers,
  and the time that the two queues and the timer take (a timer is recorded with the
  delay it is set to).
\<close>

section \<open>Strings and numbers of the host language\<close>

text \<open>
  A JavaScript string is modelled as a list of 8-bit code units (\<open>string\<close>); the code
  units 0--255 stand for the code points of the same number.  White space is what
  \<open>String.prototype.trim\<close> and \<open>parseFloat\<close> strip: TAB, LF, VT, FF, CR, SPACE and
  NO-BREAK SPACE (the white space and line terminators below code point 256).
\<close>

definition isWhiteSpace :: "char \<Rightarrow> bool" where
  "isWhiteSpace c = (c \<in> set [CHR 0x09, CHR 0x0A, CHR 0x0B, CHR 0x0C, CHR 0x0D, CHR 0x20, CHR 0xA0])"

definition trimStart :: "string \<Rightarrow> string" where
  "trimStart s = dropWhile isWhiteSpace s"

definition trimEnd :: "string \<Rightarrow> string" where
  "trimEnd s = rev (dropWhile isWhiteSpace (rev s))"

definition trim :: "string \<Rightarrow> string" where
  "trim s = trimEnd (trimStart s)"

definition isDigit :: "char \<Rightarrow> bool" where
  "isDigit c = (48 \<le> (of_char c :: nat) \<and> (of_char c :: nat) \<le> 57)"

definition digitVal :: "char \<Rightarrow> nat" where
  "digitVal c = (of_char c :: nat) - 48"

definition digitsVal :: "string \<Rightarrow> nat" where
  "digitsVal ds = foldl (\<lambda>a c. 10 * a + digitVal c) 0 ds"

text \<open>
  A JavaScript number is an IEEE 754 double: NaN, an infinity or a finite value.  A
  finite value is kept as the rational number it denotes.  \<open>toDouble\<close> rounds a
  rational to the nearest double, ties to even: it overflows to an infinity and
  underflows to zero.  Every arithmetic operation rounds its exact result.  The two
  zeros are one value here; the program divides by no zero and prints none.
\<close>

datatype jsnum = NaN | Fin rat | PInf | NInf

fun js_neg :: "jsnum \<Rightarrow> jsnum" where
  "js_neg NaN = NaN"
| "js_neg (Fin a) = Fin (- a)"
| "js_neg PInf = NInf"
| "js_neg NInf = PInf"

text \<open>The binary exponent of a positive rational: \<open>2 ^ expo x \<le> x < 2 ^ (expo x + 1)\<close>.\<close>

function expo :: "rat \<Rightarrow> int" where
  "expo x = (if x \<le> 0 then 0
             else if 2 \<le> x then expo (x / 2) + 1
             else if x < 1 then expo (2 * x) - 1
             else 0)"
  by pat_completeness auto

termination
proof (relation "measure (\<lambda>x. if 2 \<le> x then nat \<lfloor>x\<rfloor> else if 0 < x \<and> x < 1 then nat \<lceil>1 / x\<rceil> else 0)")
  show "wf (measure (\<lambda>x::rat. if 2 \<le> x then nat \<lfloor>x\<rfloor> else if 0 < x \<and> x < 1 then nat \<lceil>1 / x\<rceil> else 0))"
    by simp
next
  fix x :: rat
  assume "\<not> x \<le> 0" and x2: "2 \<le> x"
  have a: "\<lfloor>x / 2\<rfloor> < \<lfloor>x\<rfloor>"
  proof -
    have "x / 2 \<le> x - 1" using x2 by simp
    then have "\<lfloor>x / 2\<rfloor> \<le> \<lfloor>x - 1\<rfloor>" by (rule floor_mono)
    then show ?thesis by simp
  qed
  have b: "2 \<le> \<lfloor>x\<rfloor>" using x2 by (simp add: le_floor_iff)
  show "(x / 2, x) \<in> measure (\<lambda>x. if 2 \<le> x then nat \<lfloor>x\<rfloor> else if 0 < x \<and> x < 1 then nat \<lceil>1 / x\<rceil> else 0)"
    using a b x2 by auto
next
  fix x :: rat
  assume x0: "\<not> x \<le> 0" and "\<not> 2 \<le> x" and x1: "x < 1"
  have c: "2 \<le> \<lceil>1 / x\<rceil>"
  proof -
    have "1 < 1 / x" using x0 x1 by simp
    then have "1 < \<lceil>1 / x\<rceil>" by (simp add: less_ceiling_iff)
    then show ?thesis by simp
  qed
  have d: "2 * x < 1 \<Longrightarrow> \<lceil>1 / (2 * x)\<rceil> < \<lceil>1 / x\<rceil>"
  proof -
    assume h: "2 * x < 1"
    have "2 \<le> 1 / x" using x0 h by (simp add: field_simps)
    then have "1 / (2 * x) \<le> 1 / x - 1" using x0 by (simp add: field_simps)
    then have "\<lceil>1 / (2 * x)\<rceil> \<le> \<lceil>1 / x - 1\<rceil>" by (rule ceiling_mono)
    then show ?thesis by simp
  qed
  show "(2 * x, x) \<in> measure (\<lambda>x. if 2 \<le> x then nat \<lfloor>x\<rfloor> else if 0 < x \<and> x < 1 then nat \<lceil>1 / x\<rceil> else 0)"
    using c d x0 x1 by auto
qed

declare expo.simps [simp del]

text \<open>Rounding to the nearest integer, a tie to the even one.\<close>

definition roundHalfEven :: "rat \<Rightarrow> int" where
  "roundHalfEven y =
     (let f = \<lfloor>y\<rfloor>; r = y - of_int f
      in if r < 1 / 2 then f else if 1 / 2 < r then f + 1 else if even f then f else f + 1)"

text \<open>
  A double has a significand of 53 bits and a binary exponent from -1022 to 1023; below
  the exponent -1022 the doubles are the multiples of \<open>2 ^ -1074\<close>.  \<open>quantum x\<close> is
  the distance between neighbouring doubles around the positive rational \<open>x\<close>, and
  \<open>roundMag x\<close> the multiple of it nearest to \<open>x\<close>; from \<open>2 ^ 1024\<close> on, the result is
  an infinity.
\<close>

definition binade :: "rat \<Rightarrow> int" where
  "binade x = max (expo x) (- 1022)"

definition quantum :: "rat \<Rightarrow> rat" where
  "quantum x = 2 powi (binade x - 52)"

definition roundMag :: "rat \<Rightarrow> rat" where
  "roundMag x = of_int (roundHalfEven (x / quantum x)) * quantum x"

definition roundPos :: "rat \<Rightarrow> jsnum" where
  "roundPos x = (let y = roundMag x in if 2 ^ 1024 \<le> y then PInf else Fin y)"

definition toDouble :: "rat \<Rightarrow> jsnum" where
  "toDouble x = (if x = 0 then Fin 0 else if 0 < x then roundPos x else js_neg (roundPos (- x)))"

text \<open>A number that is read from JSON is the double nearest to its literal.\<close>

fun roundNum :: "jsnum \<Rightarrow> jsnum" where
  "roundNum (Fin a) = toDouble a"
| "roundNum n = n"

fun js_sub :: "jsnum \<Rightarrow> jsnum \<Rightarrow> jsnum" where
  "js_sub NaN _ = NaN"
| "js_sub _ NaN = NaN"
| "js_sub (Fin a) (Fin b) = toDouble (a - b)"
| "js_sub (Fin a) PInf = NInf"
| "js_sub (Fin a) NInf = PInf"
| "js_sub PInf PInf = NaN"
| "js_sub PInf _ = PInf"
| "js_sub NInf NInf = NaN"
| "js_sub NInf _ = NInf"

fun js_abs :: "jsnum \<Rightarrow> jsnum" where
  "js_abs NaN = NaN"
| "js_abs (Fin a) = Fin \<bar>a\<bar>"
| "js_abs PInf = PInf"
| "js_abs NInf = PInf"

fun js_div :: "jsnum \<Rightarrow> jsnum \<Rightarrow> jsnum" where
  "js_div NaN _ = NaN"
| "js_div _ NaN = NaN"
| "js_div (Fin a) (Fin b) =
     (if b = 0 then (if a = 0 then NaN else if 0 < a then PInf else NInf) else toDouble (a / b))"
| "js_div (Fin a) _ = Fin 0"
| "js_div PInf (Fin b) = (if 0 \<le> b then PInf else NInf)"
| "js_div NInf (Fin b) = (if 0 \<le> b then NInf else PInf)"
| "js_div _ _ = NaN"

fun js_mul :: "jsnum \<Rightarrow> jsnum \<Rightarrow> jsnum" where
  "js_mul NaN _ = NaN"
| "js_mul _ NaN = NaN"
| "js_mul (Fin a) (Fin b) = toDouble (a * b)"
| "js_mul (Fin a) PInf = (if a = 0 then NaN else if 0 < a then PInf else NInf)"
| "js_mul (Fin a) NInf = (if a = 0 then NaN else if 0 < a then NInf else PInf)"
| "js_mul PInf (Fin b) = (if b = 0 then NaN else if 0 < b then PInf else NInf)"
| "js_mul NInf (Fin b) = (if b = 0 then NaN else if 0 < b then NInf else PInf)"
| "js_mul PInf PInf = PInf"
| "js_mul PInf NInf = NInf"
| "js_mul NInf PInf = NInf"
| "js_mul NInf NInf = PInf"

text \<open>The comparisons \<open>a > b\<close> and \<open>a <= b\<close>; with a NaN both are false.\<close>

fun js_gt :: "jsnum \<Rightarrow> jsnum \<Rightarrow> bool" where
  "js_gt NaN _ = False"
| "js_gt _ NaN = False"
| "js_gt (Fin a) (Fin b) = (b < a)"
| "js_gt (Fin a) PInf = False"
| "js_gt (Fin a) NInf = True"
| "js_gt PInf PInf = False"
| "js_gt PInf _ = True"
| "js_gt NInf _ = False"

fun js_le :: "jsnum \<Rightarrow> jsnum \<Rightarrow> bool" where
  "js_le NaN _ = False"
| "js_le _ NaN = False"
| "js_le (Fin a) (Fin b) = (a \<le> b)"
| "js_le (Fin a) PInf = True"
| "js_le (Fin a) NInf = False"
| "js_le PInf PInf = True"
| "js_le PInf _ = False"
| "js_le NInf _ = True"

fun isNaN :: "jsnum \<Rightarrow> bool" where
  "isNaN NaN = True"
| "isNaN _ = False"

text \<open>Truthiness of a number, as \<open>||\<close> tests it: NaN and zero are falsy.\<close>

fun truthyNum :: "jsnum \<Rightarrow> bool" where
  "truthyNum NaN = False"
| "truthyNum (Fin a) = (a \<noteq> 0)"
| "truthyNum _ = True"

subsection \<open>parseFloat and parseInt\<close>

text \<open>
  \<open>parseFloat\<close> skips leading white space and reads the longest prefix that is a
  decimal literal: an optional sign, then \<open>Infinity\<close>, or digits with an optional
  fraction and an optional exponent.  No such prefix gives NaN.  The result is the
  double nearest to the value of the literal.
\<close>

definition exponentPart :: "string \<Rightarrow> int" where
  "exponentPart r =
     (case r of
        [] \<Rightarrow> 0
      | c # t \<Rightarrow>
          if c = CHR ''e'' \<or> c = CHR ''E'' then
            (let (sgn, u) = (case t of
                               [] \<Rightarrow> (1, t)
                             | d # v \<Rightarrow> if d = CHR ''+'' then (1, v)
                                        else if d = CHR ''-'' then (- 1, v) else (1, t));
                 ds = takeWhile isDigit u
             in if ds = [] then 0 else sgn * int (digitsVal ds))
          else 0)"

definition scale10 :: "rat \<Rightarrow> int \<Rightarrow> rat" where
  "scale10 q e = (if 0 \<le> e then q * 10 ^ nat e else q / 10 ^ nat (- e))"

definition strDecimal :: "string \<Rightarrow> jsnum option" where
  "strDecimal s =
     (let ip = takeWhile isDigit s;
          r1 = dropWhile isDigit s;
          (fp, r2) = (case r1 of
                        [] \<Rightarrow> ([], r1)
                      | c # t \<Rightarrow> if c = CHR ''.'' then (takeWhile isDigit t, dropWhile isDigit t)
                                 else ([], r1))
      in if ip = [] \<and> fp = [] then None
         else Some (toDouble (scale10 (of_nat (digitsVal (ip @ fp)) / 10 ^ length fp)
                                (exponentPart r2))))"

definition unsignedLiteral :: "string \<Rightarrow> jsnum" where
  "unsignedLiteral u =
     (if take 8 u = ''Infinity'' then PInf
      else case strDecimal u of None \<Rightarrow> NaN | Some n \<Rightarrow> n)"

definition parseFloatStr :: "string \<Rightarrow> jsnum" where
  "parseFloatStr s =
     (case trimStart s of
        [] \<Rightarrow> NaN
      | c # t \<Rightarrow> if c = CHR ''-'' then js_neg (unsignedLiteral t)
                 else if c = CHR ''+'' then unsignedLiteral t
                 else unsignedLiteral (c # t))"

text \<open>\<open>parseInt(x, 10)\<close>: leading white space, an optional sign, then decimal digits;
  the result is the double nearest to the integer they denote, or NaN without a digit.\<close>

definition parseInt10 :: "string \<Rightarrow> jsnum" where
  "parseInt10 s =
     (let (sgn, u) = (case trimStart s of
                        [] \<Rightarrow> (1, [])
                      | c # t \<Rightarrow> if c = CHR ''-'' then (- 1, t)
                                 else if c = CHR ''+'' then (1, t) else (1, c # t));
          ds = takeWhile isDigit u
      in if ds = [] then NaN else toDouble (of_int (sgn * int (digitsVal ds))))"

text \<open>
  A value handed to \<open>parseFloat\<close> is a string or a number.  A number is first
  converted to a string and parsed back, which returns the number itself, a double.
\<close>

datatype jsval = JStr string | JNum jsnum

fun parseFloat :: "jsval \<Rightarrow> jsnum" where
  "parseFloat (JStr s) = parseFloatStr s"
| "parseFloat (JNum n) = roundNum n"

section \<open>The change detector\<close>

text \<open>\<open>needsUpdate\<close> (lines 92--98); \<open>s || 1\<close> is \<open>s\<close> unless \<open>s\<close> is zero or NaN,
  and the literal \<open>0.01\<close> is the double nearest to one hundredth.\<close>

definition needsUpdate :: "jsval \<Rightarrow> jsval \<Rightarrow> bool" where
  "needsUpdate shopPrice mlPrice =
     (let s = parseFloat shopPrice;
          m = parseFloat mlPrice
      in if isNaN m \<or> isNaN s then False
         else let diff = js_div (js_abs (js_sub m s)) (if truthyNum s then s else Fin 1)
              in js_gt diff (toDouble (1 / 100)))"

text \<open>The decision rule in the words of the specification, on the parsed prices.\<close>

definition shouldUpdate_spec :: "rat \<Rightarrow> rat \<Rightarrow> bool" where
  "shouldUpdate_spec s m = (\<bar>m - s\<bar> / max s 1 > 1 / 100)"

text \<open>The relative difference of two finite prices as the function computes it, and the
  rationals that lie on the grid of the doubles, the multiples of \<open>2 ^ -1074\<close>.\<close>

definition relDiff :: "rat \<Rightarrow> rat \<Rightarrow> jsnum" where
  "relDiff s m = js_div (js_abs (js_sub (Fin m) (Fin s))) (Fin (if s = 0 then 1 else s))"

definition grid :: "rat \<Rightarrow> bool" where
  "grid x = (\<exists>n::int. x = of_int n * 2 powi (- 1074))"


section \<open>Data model and the outside world\<close>

text \<open>
  The storefront catalog: a product carries its variants; a catalog entry pairs a
  variant with its product.  A variant's \<open>sku\<close> may be absent (\<open>null\<close>).
\<close>

record Variant =
  variant_id :: nat
  sku :: "string option"
  price :: string

record Product =
  product_id :: nat
  variants :: "Variant list"

record Entry =
  product :: Product
  variant :: Variant

text \<open>
  Effects on the outside world are recorded in order in a trace; console output is kept
  apart.  A page request is identified by its \<open>since_id\<close>, a marketplace request by the
  item id, a storefront write by the variant id and the price whose string form is sent,
  a timer by the delay in milliseconds that it is set to.
\<close>

datatype event =
    ShopifyGet nat
  | MlGet string
  | ShopifyPut nat jsval
  | Sleep int

text \<open>
  An exception is an \<open>Error\<close> object: a message and the dynamic fields \<open>code\<close> and
  \<open>retryAfter\<close> that \<open>fetchMlItem\<close> attaches (absent otherwise; a present
  \<open>retryAfter\<close> is the result of \<open>parseInt\<close>, possibly NaN).
\<close>

datatype message =
    ShopifyGetMsg nat
  | ShopifyPutMsg nat
  | MlRateLimitMsg
  | MlNotFoundMsg
  | MlForbiddenMsg
  | MlErrorMsg nat
  | InvalidJson
  | TypeError

record error =
  message :: message
  code :: "nat option"
  retryAfter :: "jsnum option"

definition Error :: "message \<Rightarrow> error" where
  "Error msg = \<lparr>message = msg, code = None, retryAfter = None\<rparr>"

datatype logline =
    MissingEnv
  | DetectedFile nat
  | DetectedSecret nat
  | FullSyncLine
  | ProcessingList nat
  | ProcessingSku string
  | NoVariantsFound string
  | ProcessingBatch nat
  | SyncFinished
  | Fatal error
  | UpdatedVariant nat string jsval
  | ShopifyUpdateError nat message
  | NoChange nat string
  | RateLimitWaiting jsnum
  | MlItemNotFound string
  | MlForbiddenLine string
  | ErrorProcessing string message
  | TestSkuDetected string
  | NoTestSkuVariants string
  | FoundTestSku nat
  | FinishedTestSku
  | ProcessingBatch2 nat
  | BatchFinished

text \<open>
  The state of a run: the trace, the console, and for each of the two queues the number
  of tasks that were submitted and have not settled yet.
\<close>

record world =
  trace :: "event list"
  console :: "logline list"
  mlPending :: nat
  shopifyPending :: nat

definition world0 :: world where
  "world0 = \<lparr>trace = [], console = [], mlPending = 0, shopifyPending = 0\<rparr>"

definition emit :: "event \<Rightarrow> world \<Rightarrow> world" where
  "emit e w = w\<lparr>trace := trace w @ [e]\<rparr>"

definition console_log :: "logline \<Rightarrow> world \<Rightarrow> world" where
  "console_log l w = w\<lparr>console := console w @ [l]\<rparr>"

text \<open>
  The remote services.  Each answers a request as a function of the request and of the
  trace so far, so an answer may depend on everything the run did before.  For the
  catalog read, \<open>sg_products = None\<close> is a body from which \<open>data.products\<close> cannot be
  read (not JSON, or \<open>null\<close>); a missing \<open>products\<close> field is the empty list.  For the
  marketplace, the body is not JSON, or \<open>null\<close>, or a value whose \<open>price\<close> is absent
  or present.
\<close>

record shopify_get_response =
  sg_status :: nat
  sg_products :: "Product list option"

datatype ml_json = JsonNull | Item "jsval option"

record ml_response =
  ml_status :: nat
  ml_retry_after :: "string option"
  ml_body :: "ml_json option"

record shopify_put_response =
  sp_status :: nat
  sp_json :: bool

record services =
  shopify_get :: "event list \<Rightarrow> nat \<Rightarrow> shopify_get_response"
  ml_get :: "event list \<Rightarrow> string \<Rightarrow> ml_response"
  shopify_put :: "event list \<Rightarrow> nat \<Rightarrow> jsval \<Rightarrow> shopify_put_response"

definition ok :: "nat \<Rightarrow> bool" where
  "ok status = (200 \<le> status \<and> status \<le> 299)"

type_synonym 'a result = "(error + 'a) \<times> world"

section \<open>First variant of the program\<close>

subsection \<open>HTTP helpers\<close>

text \<open>\<open>shopifyGet\<close> (lines 22--28), \<open>shopifyPut\<close> (lines 30--44) and
  \<open>fetchMlItem\<close> (lines 46--69).  A request is recorded in the trace; the response is
  what the service answers after the trace so far.\<close>

definition shopifyGet :: "services \<Rightarrow> nat \<Rightarrow> world \<Rightarrow> Product list result" where
  "shopifyGet srv since_id w =
     (let res = shopify_get srv (trace w) since_id;
          w1 = emit (ShopifyGet since_id) w
      in if ok (sg_status res) then
           (case sg_products res of
              None \<Rightarrow> (Inl (Error InvalidJson), w1)
            | Some products \<Rightarrow> (Inr products, w1))
         else (Inl (Error (ShopifyGetMsg (sg_status res))), w1))"

definition shopifyPut :: "services \<Rightarrow> nat \<Rightarrow> jsval \<Rightarrow> world \<Rightarrow> unit result" where
  "shopifyPut srv vid newPrice w =
     (let res = shopify_put srv (trace w) vid newPrice;
          w1 = emit (ShopifyPut vid newPrice) w
      in if ok (sp_status res) then
           (if sp_json res then (Inr (), w1) else (Inl (Error InvalidJson), w1))
         else (Inl (Error (ShopifyPutMsg (sp_status res))), w1))"

text \<open>\<open>res.headers.get('retry-after') || 5\<close>, as the string \<open>parseInt\<close> reads.\<close>

definition retryAfterOr5 :: "string option \<Rightarrow> string" where
  "retryAfterOr5 h = (case h of None \<Rightarrow> ''5'' | Some v \<Rightarrow> if v = [] then ''5'' else v)"

definition fetchMlItem :: "services \<Rightarrow> string \<Rightarrow> world \<Rightarrow> ml_json result" where
  "fetchMlItem srv itemId w =
     (let res = ml_get srv (trace w) itemId;
          w1 = emit (MlGet itemId) w
      in if ml_status res = 429 then
           (Inl \<lparr>message = MlRateLimitMsg, code = Some 429,
                 retryAfter = Some (parseInt10 (retryAfterOr5 (ml_retry_after res)))\<rparr>, w1)
         else if ml_status res = 404 then
           (Inl \<lparr>message = MlNotFoundMsg, code = Some 404, retryAfter = None\<rparr>, w1)
         else if ml_status res = 403 then
           (Inl \<lparr>message = MlForbiddenMsg, code = Some 403, retryAfter = None\<rparr>, w1)
         else if ok (ml_status res) then
           (case ml_body res of
              None \<Rightarrow> (Inl (Error InvalidJson), w1)
            | Some item \<Rightarrow> (Inr item, w1))
         else (Inl (Error (MlErrorMsg (ml_status res))), w1))"

subsection \<open>Paginated catalog scan\<close>

text \<open>\<open>listVariantsBatch\<close> (lines 71--90): the two inner \<open>for\<close> loops with their
  \<open>break\<close>s are \<open>pushVariants\<close> and \<open>pushProducts\<close>, the \<open>while\<close> loop is
  \<open>listVariantsLoop\<close>, started with \<open>since_id = 0\<close> and no results.\<close>

text \<open>The loop tests on \<open>limit\<close>, a number: \<open>limit <= 0\<close>, \<open>results.length < limit\<close>, and
  \<open>limit > 0 && results.length >= limit\<close>.\<close>

definition limitLe0 :: "jsnum \<Rightarrow> bool" where
  "limitLe0 limit = js_le limit (Fin 0)"

definition belowLimit :: "Entry list \<Rightarrow> jsnum \<Rightarrow> bool" where
  "belowLimit results limit = js_gt limit (Fin (of_nat (length results)))"

definition limitReached :: "jsnum \<Rightarrow> Entry list \<Rightarrow> bool" where
  "limitReached limit results =
     (js_gt limit (Fin 0) \<and> js_le limit (Fin (of_nat (length results))))"

fun pushVariants :: "jsnum \<Rightarrow> Product \<Rightarrow> Variant list \<Rightarrow> Entry list \<Rightarrow> Entry list" where
  "pushVariants limit p [] results = results"
| "pushVariants limit p (v # vs) results =
     (let results1 = results @ [\<lparr>product = p, variant = v\<rparr>]
      in if limitReached limit results1 then results1 else pushVariants limit p vs results1)"

fun pushProducts :: "jsnum \<Rightarrow> Product list \<Rightarrow> Entry list \<Rightarrow> Entry list" where
  "pushProducts limit [] results = results"
| "pushProducts limit (p # ps) results =
     (let results1 = pushVariants limit p (variants p) results
      in if limitReached limit results1 then results1 else pushProducts limit ps results1)"

partial_function (option) listVariantsLoop ::
  "services \<Rightarrow> jsnum \<Rightarrow> nat \<Rightarrow> Entry list \<Rightarrow> world \<Rightarrow> Entry list result option" where
  "listVariantsLoop srv limit since_id results w =
     (if limitLe0 limit \<or> belowLimit results limit then
        (case shopifyGet srv since_id w of
           (Inl err, w1) \<Rightarrow> Some (Inl err, w1)
         | (Inr products, w1) \<Rightarrow>
             if products = [] then Some (Inr results, w1)
             else
               let results1 = pushProducts limit products results;
                   since_id1 = product_id (last products)
               in if length products < 250 then Some (Inr results1, w1)
                  else listVariantsLoop srv limit since_id1 results1 w1)
      else Some (Inr results, w))"

declare listVariantsLoop.simps [code]

definition listVariantsBatch :: "services \<Rightarrow> jsnum \<Rightarrow> world \<Rightarrow> Entry list result option" where
  "listVariantsBatch srv limit w = listVariantsLoop srv limit 0 [] w"


subsection \<open>The two queues\<close>

text \<open>
  \<open>queue.add(task)\<close> followed by \<open>await\<close>: the task is counted as outstanding from
  its submission until it settles, and the caller resumes with its result or its
  exception.  The delays that the queues insert are not part of the model.
  \<open>queue.onIdle()\<close> returns once nothing is outstanding; with a task outstanding it
  would not return (\<open>None\<close>).
\<close>

definition mlQueue_add :: "(world \<Rightarrow> 'a result) \<Rightarrow> world \<Rightarrow> 'a result" where
  "mlQueue_add task w =
     (case task (w\<lparr>mlPending := mlPending w + 1\<rparr>) of
        (r, w1) \<Rightarrow> (r, w1\<lparr>mlPending := mlPending w1 - 1\<rparr>))"

definition shopifyQueue_add :: "(world \<Rightarrow> 'a result) \<Rightarrow> world \<Rightarrow> 'a result" where
  "shopifyQueue_add task w =
     (case task (w\<lparr>shopifyPending := shopifyPending w + 1\<rparr>) of
        (r, w1) \<Rightarrow> (r, w1\<lparr>shopifyPending := shopifyPending w1 - 1\<rparr>))"

definition mlQueue_onIdle :: "world \<Rightarrow> world option" where
  "mlQueue_onIdle w = (if mlPending w = 0 then Some w else None)"

definition shopifyQueue_onIdle :: "world \<Rightarrow> world option" where
  "shopifyQueue_onIdle w = (if shopifyPending w = 0 then Some w else None)"

subsection \<open>Processing one catalog entry\<close>

text \<open>\<open>processVariantEntry\<close> (lines 100--134), in the pieces it is written in: the task
  given to the storefront queue, the body of the \<open>try\<close>, the \<open>catch\<close>.\<close>

text \<open>\<open>(v.sku || '').trim()\<close>\<close>

definition trimmedSku :: "Variant \<Rightarrow> string" where
  "trimmedSku v = trim (case sku v of None \<Rightarrow> [] | Some s \<Rightarrow> s)"

text \<open>The task handed to the storefront queue: the write, with its own \<open>try\<close>/\<open>catch\<close>.\<close>

definition updateTask :: "services \<Rightarrow> Variant \<Rightarrow> string \<Rightarrow> jsval \<Rightarrow> world \<Rightarrow> unit result" where
  "updateTask srv v skuT mlPrice w =
     (case shopifyPut srv (variant_id v) mlPrice w of
        (Inr u, w1) \<Rightarrow> (Inr (), console_log (UpdatedVariant (variant_id v) skuT mlPrice) w1)
      | (Inl err, w1) \<Rightarrow> (Inr (), console_log (ShopifyUpdateError (variant_id v) (message err)) w1))"

text \<open>The body of the outer \<open>try\<close>.\<close>

definition tryBlock :: "services \<Rightarrow> Variant \<Rightarrow> string \<Rightarrow> world \<Rightarrow> unit result" where
  "tryBlock srv v skuT w =
     (case mlQueue_add (fetchMlItem srv skuT) w of
        (Inl err, w1) \<Rightarrow> (Inl err, w1)
      | (Inr mlItem, w1) \<Rightarrow>
          (case mlItem of
             JsonNull \<Rightarrow> (Inl (Error TypeError), w1)
           | Item None \<Rightarrow> (Inr (), w1)
           | Item (Some mlPrice) \<Rightarrow>
               if needsUpdate (JStr (price v)) mlPrice
               then shopifyQueue_add (updateTask srv v skuT mlPrice) w1
               else (Inr (), console_log (NoChange (variant_id v) skuT) w1)))"

text \<open>
  \<open>setTimeout\<close> of Node, which the source asks for: a delay that is not a number
  from 1 to \<open>2 ^ 31 - 1\<close> is replaced by 1, and a delay is cut to whole milliseconds.
\<close>

definition timerDelay :: "jsnum \<Rightarrow> int" where
  "timerDelay wait =
     (case wait of
        Fin q \<Rightarrow> if 1 \<le> q \<and> q \<le> 2 ^ 31 - 1 then \<lfloor>q\<rfloor> else 1
      | _ \<Rightarrow> 1)"

text \<open>The outer \<open>catch\<close>; \<open>(err.retryAfter || 5) * 1000\<close> is a product of doubles.\<close>

definition catchBlock :: "string \<Rightarrow> error \<Rightarrow> world \<Rightarrow> unit result" where
  "catchBlock skuT err w =
     (if code err = Some 429 then
        (let wait = js_mul (case retryAfter err of
                              Some n \<Rightarrow> if truthyNum n then n else Fin 5
                            | None \<Rightarrow> Fin 5) (Fin 1000)
         in (Inr (), emit (Sleep (timerDelay wait)) (console_log (RateLimitWaiting wait) w)))
      else if code err = Some 404 then (Inr (), console_log (MlItemNotFound skuT) w)
      else if code err = Some 403 then (Inr (), console_log (MlForbiddenLine skuT) w)
      else (Inr (), console_log (ErrorProcessing skuT (message err)) w))"

definition processVariantEntry :: "services \<Rightarrow> Entry \<Rightarrow> world \<Rightarrow> unit result" where
  "processVariantEntry srv entry w =
     (let v = variant entry;
          skuT = trimmedSku v
      in if skuT = [] then (Inr (), w)
         else (case tryBlock srv v skuT w of
                 (Inr u, w1) \<Rightarrow> (Inr u, w1)
               | (Inl err, w1) \<Rightarrow> catchBlock skuT err w1))"

text \<open>\<open>for (const entry of ...) await processVariantEntry(entry)\<close>\<close>

fun processEntries :: "services \<Rightarrow> Entry list \<Rightarrow> world \<Rightarrow> unit result" where
  "processEntries srv [] w = (Inr (), w)"
| "processEntries srv (entry # rest) w =
     (case processVariantEntry srv entry w of
        (Inl err, w1) \<Rightarrow> (Inl err, w1)
      | (Inr u, w1) \<Rightarrow> processEntries srv rest w1)"

subsection \<open>Targeted lookup\<close>

text \<open>\<open>findVariantsBySku\<close> (lines 136--155).\<close>

fun matchVariants :: "string \<Rightarrow> Product \<Rightarrow> Variant list \<Rightarrow> Entry list \<Rightarrow> Entry list" where
  "matchVariants targetSku p [] matches = matches"
| "matchVariants targetSku p (v # vs) matches =
     matchVariants targetSku p vs
       (if trimmedSku v = targetSku then matches @ [\<lparr>product = p, variant = v\<rparr>] else matches)"

fun matchProducts :: "string \<Rightarrow> Product list \<Rightarrow> Entry list \<Rightarrow> Entry list" where
  "matchProducts targetSku [] matches = matches"
| "matchProducts targetSku (p # ps) matches =
     matchProducts targetSku ps (matchVariants targetSku p (variants p) matches)"

partial_function (option) findVariantsLoop ::
  "services \<Rightarrow> string \<Rightarrow> nat \<Rightarrow> Entry list \<Rightarrow> world \<Rightarrow> Entry list result option" where
  "findVariantsLoop srv targetSku since_id matches w =
     (case shopifyGet srv since_id w of
        (Inl err, w1) \<Rightarrow> Some (Inl err, w1)
      | (Inr products, w1) \<Rightarrow>
          if products = [] then Some (Inr matches, w1)
          else
            let matches1 = matchProducts targetSku products matches;
                since_id1 = product_id (last products)
            in if length products < 250 then Some (Inr matches1, w1)
               else findVariantsLoop srv targetSku since_id1 matches1 w1)"

declare findVariantsLoop.simps [code]

definition findVariantsBySku :: "services \<Rightarrow> string \<Rightarrow> world \<Rightarrow> Entry list result option" where
  "findVariantsBySku srv targetSku w = findVariantsLoop srv targetSku 0 [] w"

subsection \<open>Configuration\<close>

text \<open>
  The process environment and the optional file \<open>sku_list.txt\<close> of the working
  directory (\<open>None\<close> when the file does not exist).
\<close>

record config =
  env_SHOP_DOMAIN :: "string option"
  env_SHOPIFY_ADMIN_TOKEN :: "string option"
  env_ML_TOKEN :: "string option"
  env_BATCH_SIZE :: "string option"
  env_TEST_SKU :: "string option"
  env_FULL_SYNC :: "string option"
  env_SKU_LIST :: "string option"
  sku_list_txt :: "string option"

text \<open>\<open>x || d\<close> on an environment variable: unset and empty both give \<open>d\<close>.\<close>

definition orElse :: "string option \<Rightarrow> string \<Rightarrow> string" where
  "orElse x d = (case x of None \<Rightarrow> d | Some v \<Rightarrow> if v = [] then d else v)"

definition toLowerChar :: "char \<Rightarrow> char" where
  "toLowerChar c =
     (let n = (of_char c :: nat)
      in if (65 \<le> n \<and> n \<le> 90) \<or> (192 \<le> n \<and> n \<le> 222 \<and> n \<noteq> 215)
         then char_of (n + 32) else c)"

definition toLowerCase :: "string \<Rightarrow> string" where
  "toLowerCase s = map toLowerChar s"

definition BATCH_SIZE :: "config \<Rightarrow> jsnum" where
  "BATCH_SIZE cfg = parseInt10 (orElse (env_BATCH_SIZE cfg) ''200'')"

definition TEST_SKU :: "config \<Rightarrow> string" where
  "TEST_SKU cfg = trim (orElse (env_TEST_SKU cfg) [])"

definition FULL_SYNC :: "config \<Rightarrow> bool" where
  "FULL_SYNC cfg = (toLowerCase (orElse (env_FULL_SYNC cfg) ''false'') = ''true'')"

text \<open>\<open>split(/\r?\n/)\<close> and \<open>split(',')\<close>; the first argument is the piece being read.\<close>

fun splitLines :: "string \<Rightarrow> string \<Rightarrow> string list" where
  "splitLines cur [] = [cur]"
| "splitLines cur [c] = (if c = CHR 0x0A then [cur, []] else [cur @ [c]])"
| "splitLines cur (c # d # cs) =
     (if c = CHR 0x0A then cur # splitLines [] (d # cs)
      else if c = CHR 0x0D \<and> d = CHR 0x0A then cur # splitLines [] cs
      else splitLines (cur @ [c]) (d # cs))"

fun splitComma :: "string \<Rightarrow> string \<Rightarrow> string list" where
  "splitComma cur [] = [cur]"
| "splitComma cur (c # cs) =
     (if c = CHR '','' then cur # splitComma [] cs else splitComma (cur @ [c]) cs)"

definition startsWithHash :: "string \<Rightarrow> bool" where
  "startsWithHash s = (case s of [] \<Rightarrow> False | c # _ \<Rightarrow> c = CHR ''#'')"

definition nonEmpty :: "string \<Rightarrow> bool" where
  "nonEmpty s = (s \<noteq> [])"

definition readSkuListFile :: "config \<Rightarrow> string list" where
  "readSkuListFile cfg =
     (case sku_list_txt cfg of
        None \<Rightarrow> []
      | Some raw \<Rightarrow>
          filter (\<lambda>s. \<not> startsWithHash s) (filter nonEmpty (map trim (splitLines [] raw))))"


subsection \<open>The run\<close>

text \<open>The top-level function (lines 164--223): the source of the SKU list, the three
  branches, the wait for the queues.\<close>

text \<open>\<open>raw.split(',').map(s => s.trim()).filter(Boolean)\<close>\<close>

definition parseSkuList :: "string \<Rightarrow> string list" where
  "parseSkuList raw = filter nonEmpty (map trim (splitComma [] raw))"

text \<open>Where the SKU list comes from: the file, else the \<open>SKU_LIST\<close> variable, else
  nothing.\<close>

definition skuListSource :: "config \<Rightarrow> world \<Rightarrow> string list \<times> world" where
  "skuListSource cfg w =
     (let fileSkus = readSkuListFile cfg
      in if fileSkus \<noteq> [] then (fileSkus, console_log (DetectedFile (length fileSkus)) w)
         else if orElse (env_SKU_LIST cfg) [] \<noteq> [] then
           (let skuList = parseSkuList (orElse (env_SKU_LIST cfg) [])
            in (skuList, if skuList \<noteq> [] then console_log (DetectedSecret (length skuList)) w else w))
         else ([], w))"

text \<open>If \<open>TEST_SKU\<close> is provided, it goes first in the list, and is not duplicated.\<close>

definition testSkuFirst :: "string \<Rightarrow> string list \<Rightarrow> string list" where
  "testSkuFirst t skuList = (if t \<noteq> [] then t # filter (\<lambda>s. s \<noteq> t) skuList else skuList)"

definition awaitIdle :: "logline \<Rightarrow> world \<Rightarrow> unit result option" where
  "awaitIdle finished w =
     (case mlQueue_onIdle w of
        None \<Rightarrow> None
      | Some w1 \<Rightarrow>
          (case shopifyQueue_onIdle w1 of
             None \<Rightarrow> None
           | Some w2 \<Rightarrow> Some (Inr (), console_log finished w2)))"

fun processSkuList :: "services \<Rightarrow> string list \<Rightarrow> world \<Rightarrow> unit result option" where
  "processSkuList srv [] w = Some (Inr (), w)"
| "processSkuList srv (s # rest) w =
     (case findVariantsBySku srv s (console_log (ProcessingSku s) w) of
        None \<Rightarrow> None
      | Some (Inl err, w1) \<Rightarrow> Some (Inl err, w1)
      | Some (Inr matches, w1) \<Rightarrow>
          if matches = [] then processSkuList srv rest (console_log (NoVariantsFound s) w1)
          else (case processEntries srv matches w1 of
                  (Inl err, w2) \<Rightarrow> Some (Inl err, w2)
                | (Inr u, w2) \<Rightarrow> processSkuList srv rest w2))"

definition fullSyncBranch :: "services \<Rightarrow> world \<Rightarrow> unit result option" where
  "fullSyncBranch srv w =
     (case listVariantsBatch srv (Fin 0) (console_log FullSyncLine w) of
        None \<Rightarrow> None
      | Some (Inl err, w1) \<Rightarrow> Some (Inl err, w1)
      | Some (Inr batch, w1) \<Rightarrow>
          (case processEntries srv batch w1 of
             (Inl err, w2) \<Rightarrow> Some (Inl err, w2)
           | (Inr u, w2) \<Rightarrow> awaitIdle SyncFinished w2))"

definition skuListBranch :: "services \<Rightarrow> string list \<Rightarrow> world \<Rightarrow> unit result option" where
  "skuListBranch srv skuList w =
     (case processSkuList srv skuList (console_log (ProcessingList (length skuList)) w) of
        None \<Rightarrow> None
      | Some (Inl err, w1) \<Rightarrow> Some (Inl err, w1)
      | Some (Inr u, w1) \<Rightarrow> awaitIdle SyncFinished w1)"

definition batchBranch :: "services \<Rightarrow> jsnum \<Rightarrow> world \<Rightarrow> unit result option" where
  "batchBranch srv limit w =
     (case listVariantsBatch srv limit w of
        None \<Rightarrow> None
      | Some (Inl err, w1) \<Rightarrow> Some (Inl err, w1)
      | Some (Inr batch, w1) \<Rightarrow>
          (case processEntries srv batch (console_log (ProcessingBatch (length batch)) w1) of
             (Inl err, w2) \<Rightarrow> Some (Inl err, w2)
           | (Inr u, w2) \<Rightarrow> awaitIdle SyncFinished w2))"

text \<open>The body of the \<open>try\<close> of the top-level function.\<close>

definition tryMain :: "config \<Rightarrow> services \<Rightarrow> world \<Rightarrow> unit result option" where
  "tryMain cfg srv w =
     (case skuListSource cfg w of
        (skuList0, w1) \<Rightarrow>
          let skuList = testSkuFirst (TEST_SKU cfg) skuList0
          in if FULL_SYNC cfg then fullSyncBranch srv w1
             else if skuList \<noteq> [] then skuListBranch srv skuList w1
             else batchBranch srv (BATCH_SIZE cfg) w1)"

text \<open>
  A run returns the exit status of the process and the final state: status 1 from
  \<open>process.exit(1)\<close>, status 0 when the top-level function returns.
\<close>

definition main :: "config \<Rightarrow> services \<Rightarrow> (nat \<times> world) option" where
  "main cfg srv =
     (if orElse (env_SHOP_DOMAIN cfg) [] = [] \<or> orElse (env_SHOPIFY_ADMIN_TOKEN cfg) [] = []
      then Some (1, console_log MissingEnv world0)
      else (case tryMain cfg srv world0 of
              None \<Rightarrow> None
            | Some (Inl err, w) \<Rightarrow> Some (1, console_log (Fatal err) w)
            | Some (Inr u, w) \<Rightarrow> Some (0, w)))"

section \<open>Second variant of the program\<close>

text \<open>The second copy of the program in the source file (lines 224--417), function by
  function.  It reads the same settings and uses the same two queues.\<close>

definition shopifyGet2 :: "services \<Rightarrow> nat \<Rightarrow> world \<Rightarrow> Product list result" where
  "shopifyGet2 srv since_id w =
     (let res = shopify_get srv (trace w) since_id;
          w1 = emit (ShopifyGet since_id) w
      in if ok (sg_status res) then
           (case sg_products res of
              None \<Rightarrow> (Inl (Error InvalidJson), w1)
            | Some products \<Rightarrow> (Inr products, w1))
         else (Inl (Error (ShopifyGetMsg (sg_status res))), w1))"

definition shopifyPut2 :: "services \<Rightarrow> nat \<Rightarrow> jsval \<Rightarrow> world \<Rightarrow> unit result" where
  "shopifyPut2 srv vid newPrice w =
     (let res = shopify_put srv (trace w) vid newPrice;
          w1 = emit (ShopifyPut vid newPrice) w
      in if ok (sp_status res) then
           (if sp_json res then (Inr (), w1) else (Inl (Error InvalidJson), w1))
         else (Inl (Error (ShopifyPutMsg (sp_status res))), w1))"

definition fetchMlItem2 :: "services \<Rightarrow> string \<Rightarrow> world \<Rightarrow> ml_json result" where
  "fetchMlItem2 srv itemId w =
     (let res = ml_get srv (trace w) itemId;
          w1 = emit (MlGet itemId) w
      in if ml_status res = 429 then
           (Inl \<lparr>message = MlRateLimitMsg, code = Some 429,
                 retryAfter = Some (parseInt10 (retryAfterOr5 (ml_retry_after res)))\<rparr>, w1)
         else if ml_status res = 404 then
           (Inl \<lparr>message = MlNotFoundMsg, code = Some 404, retryAfter = None\<rparr>, w1)
         else if ml_status res = 403 then
           (Inl \<lparr>message = MlForbiddenMsg, code = Some 403, retryAfter = None\<rparr>, w1)
         else if ok (ml_status res) then
           (case ml_body res of
              None \<Rightarrow> (Inl (Error InvalidJson), w1)
            | Some item \<Rightarrow> (Inr item, w1))
         else (Inl (Error (MlErrorMsg (ml_status res))), w1))"

fun pushVariants2 :: "jsnum \<Rightarrow> Product \<Rightarrow> Variant list \<Rightarrow> Entry list \<Rightarrow> Entry list" where
  "pushVariants2 limit p [] results = results"
| "pushVariants2 limit p (v # vs) results =
     (let results1 = results @ [\<lparr>product = p, variant = v\<rparr>]
      in if limitReached limit results1 then results1 else pushVariants2 limit p vs results1)"

fun pushProducts2 :: "jsnum \<Rightarrow> Product list \<Rightarrow> Entry list \<Rightarrow> Entry list" where
  "pushProducts2 limit [] results = results"
| "pushProducts2 limit (p # ps) results =
     (let results1 = pushVariants2 limit p (variants p) results
      in if limitReached limit results1 then results1 else pushProducts2 limit ps results1)"

partial_function (option) listVariantsLoop2 ::
  "services \<Rightarrow> jsnum \<Rightarrow> nat \<Rightarrow> Entry list \<Rightarrow> world \<Rightarrow> Entry list result option" where
  "listVariantsLoop2 srv limit since_id results w =
     (if limitLe0 limit \<or> belowLimit results limit then
        (case shopifyGet2 srv since_id w of
           (Inl err, w1) \<Rightarrow> Some (Inl err, w1)
         | (Inr products, w1) \<Rightarrow>
             if products = [] then Some (Inr results, w1)
             else
               let results1 = pushProducts2 limit products results;
                   since_id1 = product_id (last products)
               in if length products < 250 then Some (Inr results1, w1)
                  else listVariantsLoop2 srv limit since_id1 results1 w1)
      else Some (Inr results, w))"

declare listVariantsLoop2.simps [code]

definition listVariantsBatch2 :: "services \<Rightarrow> jsnum \<Rightarrow> world \<Rightarrow> Entry list result option" where
  "listVariantsBatch2 srv limit w = listVariantsLoop2 srv limit 0 [] w"

definition needsUpdate2 :: "jsval \<Rightarrow> jsval \<Rightarrow> bool" where
  "needsUpdate2 shopPrice mlPrice =
     (let s = parseFloat shopPrice;
          m = parseFloat mlPrice
      in if isNaN m \<or> isNaN s then False
         else let diff = js_div (js_abs (js_sub m s)) (if truthyNum s then s else Fin 1)
              in js_gt diff (toDouble (1 / 100)))"

definition updateTask2 :: "services \<Rightarrow> Variant \<Rightarrow> string \<Rightarrow> jsval \<Rightarrow> world \<Rightarrow> unit result" where
  "updateTask2 srv v skuT mlPrice w =
     (case shopifyPut2 srv (variant_id v) mlPrice w of
        (Inr u, w1) \<Rightarrow> (Inr (), console_log (UpdatedVariant (variant_id v) skuT mlPrice) w1)
      | (Inl err, w1) \<Rightarrow> (Inr (), console_log (ShopifyUpdateError (variant_id v) (message err)) w1))"

definition tryBlock2 :: "services \<Rightarrow> Variant \<Rightarrow> string \<Rightarrow> world \<Rightarrow> unit result" where
  "tryBlock2 srv v skuT w =
     (case mlQueue_add (fetchMlItem2 srv skuT) w of
        (Inl err, w1) \<Rightarrow> (Inl err, w1)
      | (Inr mlItem, w1) \<Rightarrow>
          (case mlItem of
             JsonNull \<Rightarrow> (Inl (Error TypeError), w1)
           | Item None \<Rightarrow> (Inr (), w1)
           | Item (Some mlPrice) \<Rightarrow>
               if needsUpdate2 (JStr (price v)) mlPrice
               then shopifyQueue_add (updateTask2 srv v skuT mlPrice) w1
               else (Inr (), w1)))"

definition catchBlock2 :: "string \<Rightarrow> error \<Rightarrow> world \<Rightarrow> unit result" where
  "catchBlock2 skuT err w =
     (if code err = Some 429 then
        (let wait = js_mul (case retryAfter err of
                              Some n \<Rightarrow> if truthyNum n then n else Fin 5
                            | None \<Rightarrow> Fin 5) (Fin 1000)
         in (Inr (), emit (Sleep (timerDelay wait)) (console_log (RateLimitWaiting wait) w)))
      else if code err = Some 404 then (Inr (), console_log (MlItemNotFound skuT) w)
      else if code err = Some 403 then (Inr (), console_log (MlForbiddenLine skuT) w)
      else (Inr (), console_log (ErrorProcessing skuT (message err)) w))"

definition processVariantEntry2 :: "services \<Rightarrow> Entry \<Rightarrow> world \<Rightarrow> unit result" where
  "processVariantEntry2 srv entry w =
     (let v = variant entry;
          skuT = trimmedSku v
      in if skuT = [] then (Inr (), w)
         else (case tryBlock2 srv v skuT w of
                 (Inr u, w1) \<Rightarrow> (Inr u, w1)
               | (Inl err, w1) \<Rightarrow> catchBlock2 skuT err w1))"

fun processEntries2 :: "services \<Rightarrow> Entry list \<Rightarrow> world \<Rightarrow> unit result" where
  "processEntries2 srv [] w = (Inr (), w)"
| "processEntries2 srv (entry # rest) w =
     (case processVariantEntry2 srv entry w of
        (Inl err, w1) \<Rightarrow> (Inl err, w1)
      | (Inr u, w1) \<Rightarrow> processEntries2 srv rest w1)"

fun matchVariants2 :: "string \<Rightarrow> Product \<Rightarrow> Variant list \<Rightarrow> Entry list \<Rightarrow> Entry list" where
  "matchVariants2 targetSku p [] matches = matches"
| "matchVariants2 targetSku p (v # vs) matches =
     matchVariants2 targetSku p vs
       (if trimmedSku v = targetSku then matches @ [\<lparr>product = p, variant = v\<rparr>] else matches)"

fun matchProducts2 :: "string \<Rightarrow> Product list \<Rightarrow> Entry list \<Rightarrow> Entry list" where
  "matchProducts2 targetSku [] matches = matches"
| "matchProducts2 targetSku (p # ps) matches =
     matchProducts2 targetSku ps (matchVariants2 targetSku p (variants p) matches)"

partial_function (option) findVariantsLoop2 ::
  "services \<Rightarrow> string \<Rightarrow> nat \<Rightarrow> Entry list \<Rightarrow> world \<Rightarrow> Entry list result option" where
  "findVariantsLoop2 srv targetSku since_id matches w =
     (case shopifyGet2 srv since_id w of
        (Inl err, w1) \<Rightarrow> Some (Inl err, w1)
      | (Inr products, w1) \<Rightarrow>
          if products = [] then Some (Inr matches, w1)
          else
            let matches1 = matchProducts2 targetSku products matches;
                since_id1 = product_id (last products)
            in if length products < 250 then Some (Inr matches1, w1)
               else findVariantsLoop2 srv targetSku since_id1 matches1 w1)"

declare findVariantsLoop2.simps [code]

definition findVariantsBySku2 :: "services \<Rightarrow> string \<Rightarrow> world \<Rightarrow> Entry list result option" where
  "findVariantsBySku2 srv targetSku w = findVariantsLoop2 srv targetSku 0 [] w"

text \<open>If \<open>TEST_SKU\<close> is set, its variants are looked up and processed first.\<close>

definition processTestSku2 :: "config \<Rightarrow> services \<Rightarrow> world \<Rightarrow> unit result option" where
  "processTestSku2 cfg srv w =
     (if TEST_SKU cfg \<noteq> [] then
        (case findVariantsBySku2 srv (TEST_SKU cfg) (console_log (TestSkuDetected (TEST_SKU cfg)) w) of
           None \<Rightarrow> None
         | Some (Inl err, w1) \<Rightarrow> Some (Inl err, w1)
         | Some (Inr found, w1) \<Rightarrow>
             if found = [] then Some (Inr (), console_log (NoTestSkuVariants (TEST_SKU cfg)) w1)
             else (case processEntries2 srv found (console_log (FoundTestSku (length found)) w1) of
                     (Inl err, w2) \<Rightarrow> Some (Inl err, w2)
                   | (Inr u, w2) \<Rightarrow> Some (Inr (), console_log FinishedTestSku w2)))
      else Some (Inr (), w))"

text \<open>The batch of the second variant, without the variants of \<open>TEST_SKU\<close>.\<close>

definition filteredBatch2 :: "config \<Rightarrow> Entry list \<Rightarrow> Entry list" where
  "filteredBatch2 cfg batch =
     (if TEST_SKU cfg \<noteq> [] then filter (\<lambda>e. trimmedSku (variant e) \<noteq> TEST_SKU cfg) batch
      else batch)"

definition tryMain2 :: "config \<Rightarrow> services \<Rightarrow> world \<Rightarrow> unit result option" where
  "tryMain2 cfg srv w =
     (case processTestSku2 cfg srv w of
        None \<Rightarrow> None
      | Some (Inl err, w1) \<Rightarrow> Some (Inl err, w1)
      | Some (Inr u, w1) \<Rightarrow>
          let limit = (if FULL_SYNC cfg then Fin 0 else BATCH_SIZE cfg)
          in (case listVariantsBatch2 srv limit w1 of
                None \<Rightarrow> None
              | Some (Inl err, w2) \<Rightarrow> Some (Inl err, w2)
              | Some (Inr batch, w2) \<Rightarrow>
                  (case processEntries2 srv (filteredBatch2 cfg batch)
                          (console_log (ProcessingBatch2 (length (filteredBatch2 cfg batch))) w2) of
                     (Inl err, w3) \<Rightarrow> Some (Inl err, w3)
                   | (Inr u, w3) \<Rightarrow> awaitIdle BatchFinished w3)))"

definition main2 :: "config \<Rightarrow> services \<Rightarrow> (nat \<times> world) option" where
  "main2 cfg srv =
     (if orElse (env_SHOP_DOMAIN cfg) [] = [] \<or> orElse (env_SHOPIFY_ADMIN_TOKEN cfg) [] = []
      then Some (1, console_log MissingEnv world0)
      else (case tryMain2 cfg srv world0 of
              None \<Rightarrow> None
            | Some (Inl err, w) \<Rightarrow> Some (1, console_log (Fatal err) w)
            | Some (Inr u, w) \<Rightarrow> Some (0, w)))"


section \<open>Reference services\<close>

text \<open>
  A storefront that serves a fixed catalog: a page request returns the first 250
  products whose id is above \<open>since_id\<close>, in catalog order.
\<close>

definition catalogPage :: "Product list \<Rightarrow> nat \<Rightarrow> Product list" where
  "catalogPage cat since_id = take 250 (filter (\<lambda>p. since_id < product_id p) cat)"

definition catalogServer :: "Product list \<Rightarrow> event list \<Rightarrow> nat \<Rightarrow> shopify_get_response" where
  "catalogServer cat h since_id = \<lparr>sg_status = 200, sg_products = Some (catalogPage cat since_id)\<rparr>"

definition servesCatalog :: "services \<Rightarrow> Product list \<Rightarrow> bool" where
  "servesCatalog srv cat = (shopify_get srv = catalogServer cat)"

text \<open>
  The entries of a list of products, in order, and the catalogs whose products come by
  increasing, positive id.
\<close>

definition entriesOf :: "Product list \<Rightarrow> Entry list" where
  "entriesOf ps = concat (map (\<lambda>p. map (\<lambda>v. \<lparr>product = p, variant = v\<rparr>) (variants p)) ps)"

definition sortedCatalog :: "Product list \<Rightarrow> bool" where
  "sortedCatalog cat = (sorted_wrt (<) (map product_id cat) \<and> list_all (\<lambda>p. 0 < product_id p) cat)"

text \<open>The entries of a catalog that carry a given SKU.\<close>

definition lookup :: "Product list \<Rightarrow> string \<Rightarrow> Entry list" where
  "lookup cat s = filter (\<lambda>e. trimmedSku (variant e) = s) (entriesOf cat)"

text \<open>A list cut at a positive finite limit; no other limit cuts.\<close>

definition capTo :: "jsnum \<Rightarrow> 'a list \<Rightarrow> 'a list" where
  "capTo limit xs = (case limit of Fin l \<Rightarrow> if 0 < l then take (nat \<lceil>l\<rceil>) xs else xs | _ \<Rightarrow> xs)"

text \<open>
  What a scan that starts with \<open>results\<close> yields when the products still to be read
  are \<open>r\<close>: nothing more if the loop test fails at once, else everything up to the cap.
\<close>

definition scanResult :: "jsnum \<Rightarrow> Entry list \<Rightarrow> Product list \<Rightarrow> Entry list" where
  "scanResult limit results r =
     (if limitLe0 limit \<or> belowLimit results limit then capTo limit (results @ entriesOf r)
      else results)"

text \<open>A marketplace that gives every request the same answer, and a storefront that
  accepts every write.\<close>

definition mlAlways :: "ml_response \<Rightarrow> event list \<Rightarrow> string \<Rightarrow> ml_response" where
  "mlAlways r h itemId = r"

definition putAlways :: "nat \<Rightarrow> event list \<Rightarrow> nat \<Rightarrow> jsval \<Rightarrow> shopify_put_response" where
  "putAlways st h vid newPrice = \<lparr>sp_status = st, sp_json = True\<rparr>"

definition shop :: "Product list \<Rightarrow> ml_response \<Rightarrow> services" where
  "shop cat r = \<lparr>shopify_get = catalogServer cat, ml_get = mlAlways r, shopify_put = putAlways 200\<rparr>"

definition shopPut :: "Product list \<Rightarrow> ml_response \<Rightarrow> nat \<Rightarrow> services" where
  "shopPut cat r st = \<lparr>shopify_get = catalogServer cat, ml_get = mlAlways r, shopify_put = putAlways st\<rparr>"

text \<open>A storefront whose catalog read works once, on a fresh trace, and fails with the
  given status ever after.\<close>

definition flakyServer :: "Product list \<Rightarrow> nat \<Rightarrow> event list \<Rightarrow> nat \<Rightarrow> shopify_get_response" where
  "flakyServer cat st h since_id =
     (if h = [] then catalogServer cat h since_id else \<lparr>sg_status = st, sg_products = None\<rparr>)"

definition flakyShop :: "Product list \<Rightarrow> nat \<Rightarrow> ml_response \<Rightarrow> services" where
  "flakyShop cat st r = \<lparr>shopify_get = flakyServer cat st, ml_get = mlAlways r, shopify_put = putAlways 200\<rparr>"


definition mlPrice :: "rat \<Rightarrow> ml_response" where
  "mlPrice q = \<lparr>ml_status = 200, ml_retry_after = None, ml_body = Some (Item (Some (JNum (Fin q))))\<rparr>"

definition mlStatus :: "nat \<Rightarrow> string option \<Rightarrow> ml_response" where
  "mlStatus st h = \<lparr>ml_status = st, ml_retry_after = h, ml_body = None\<rparr>"

definition mkVariant :: "nat \<Rightarrow> string \<Rightarrow> string \<Rightarrow> Variant" where
  "mkVariant i s p = \<lparr>variant_id = i, sku = Some s, price = p\<rparr>"

definition mkProduct :: "nat \<Rightarrow> Variant list \<Rightarrow> Product" where
  "mkProduct i vs = \<lparr>product_id = i, variants = vs\<rparr>"

definition mkEntry :: "nat \<Rightarrow> string \<Rightarrow> string \<Rightarrow> Entry" where
  "mkEntry i s p = \<lparr>product = mkProduct i [mkVariant i s p], variant = mkVariant i s p\<rparr>"



definition mkConfig :: "string \<Rightarrow> string \<Rightarrow> string \<Rightarrow> string \<Rightarrow> string option \<Rightarrow> config" where
  "mkConfig batch test full skus file =
     \<lparr>env_SHOP_DOMAIN = Some ''shop'', env_SHOPIFY_ADMIN_TOKEN = Some ''token'',
      env_ML_TOKEN = None, env_BATCH_SIZE = Some batch, env_TEST_SKU = Some test,
      env_FULL_SYNC = Some full, env_SKU_LIST = Some skus, sku_list_txt = file\<rparr>"

text \<open>The marketplace requests of a trace, and the catalog reads of a trace, in order.\<close>

fun mlGets :: "event list \<Rightarrow> string list" where
  "mlGets [] = []"
| "mlGets (MlGet s # es) = s # mlGets es"
| "mlGets (_ # es) = mlGets es"

fun shopifyGets :: "event list \<Rightarrow> nat list" where
  "shopifyGets [] = []"
| "shopifyGets (ShopifyGet c # es) = c # shopifyGets es"
| "shopifyGets (_ # es) = shopifyGets es"

text \<open>The SKUs that a list of entries sends to the marketplace: the non-empty trimmed
  ones.\<close>

definition skusOf :: "Entry list \<Rightarrow> string list" where
  "skusOf es = filter nonEmpty (map (\<lambda>e. trimmedSku (variant e)) es)"

text \<open>Both mandatory settings are present.\<close>

definition credentials :: "config \<Rightarrow> bool" where
  "credentials cfg =
     (orElse (env_SHOP_DOMAIN cfg) [] \<noteq> [] \<and> orElse (env_SHOPIFY_ADMIN_TOKEN cfg) [] \<noteq> [])"

section \<open>Invariants of a run\<close>

text \<open>
  A catalog read succeeds when the response has a success status and a readable body.
  \<open>readsOk srv h es\<close>: every catalog read among the events \<open>es\<close>, issued after the
  history \<open>h\<close>, succeeded.  \<open>okStep\<close> relates a state to a later state reached
  through successful reads only; \<open>failStep\<close> to a later state whose last event is a
  failed read, the only one.  Neither changes the queues.
\<close>

definition readOk :: "services \<Rightarrow> event list \<Rightarrow> nat \<Rightarrow> bool" where
  "readOk srv h c = (ok (sg_status (shopify_get srv h c)) \<and> sg_products (shopify_get srv h c) \<noteq> None)"

fun eventOk :: "services \<Rightarrow> event list \<Rightarrow> event \<Rightarrow> bool" where
  "eventOk srv h (ShopifyGet c) = readOk srv h c"
| "eventOk srv h _ = True"

fun readsOk :: "services \<Rightarrow> event list \<Rightarrow> event list \<Rightarrow> bool" where
  "readsOk srv h [] = True"
| "readsOk srv h (e # es) = (eventOk srv h e \<and> readsOk srv (h @ [e]) es)"

definition okStep :: "services \<Rightarrow> world \<Rightarrow> world \<Rightarrow> bool" where
  "okStep srv w w1 =
     (\<exists>es ls. trace w1 = trace w @ es \<and> console w1 = console w @ ls
        \<and> mlPending w1 = mlPending w \<and> shopifyPending w1 = shopifyPending w
        \<and> readsOk srv (trace w) es)"

definition failStep :: "services \<Rightarrow> world \<Rightarrow> world \<Rightarrow> bool" where
  "failStep srv w w1 =
     (\<exists>es c ls. trace w1 = trace w @ es @ [ShopifyGet c] \<and> console w1 = console w @ ls
        \<and> mlPending w1 = mlPending w \<and> shopifyPending w1 = shopifyPending w
        \<and> readsOk srv (trace w) es \<and> \<not> readOk srv (trace w @ es) c)"

text \<open>The step that a result stands for: an exception is a failed read.\<close>

definition stepOf :: "services \<Rightarrow> world \<Rightarrow> 'a result \<Rightarrow> bool" where
  "stepOf srv w y = (if isl (fst y) then failStep srv w (snd y) else okStep srv w (snd y))"

section \<open>Properties\<close>

subsection \<open>Rounding to a double\<close>

text \<open>Evaluation of the rounding, the position of a rounded value, and the facts that
  the decision on a price difference rests on: rounding is monotone, it is exact on
  integers below \<open>2 ^ 53\<close> and on small differences of doubles, and its relative error
  is at most \<open>2 ^ -53\<close> otherwise.\<close>

lemmas double_defs = toDouble_def roundPos_def roundMag_def quantum_def binade_def roundHalfEven_def
  expo.simps Let_def

lemma floor_rat_numeral [simp]: "\<lfloor>numeral a / numeral b :: rat\<rfloor> = numeral a div numeral b"
  using floor_divide_of_int_eq [of "numeral a" "numeral b", where ?'a = rat] by simp

lemma pow2_Suc: "(2::rat) powi (k + 1) = 2 powi k * 2"
  by (simp add: power_int_add)

lemma pow2_pred: "(2::rat) powi (k - 1) = 2 powi k / 2"
  by (simp add: power_int_diff)

lemma expo_bounds:
  "0 < x \<Longrightarrow> 2 powi expo x \<le> x \<and> x < 2 powi (expo x + 1)"
proof (induction x rule: expo.induct)
  case (1 x)
  then have pos: "\<not> x \<le> 0" by simp
  show ?case
  proof (cases "2 \<le> x")
    case True
    have ih: "2 powi expo (x / 2) \<le> x / 2 \<and> x / 2 < 2 powi (expo (x / 2) + 1)"
      using 1 pos True by simp
    have e: "expo x = expo (x / 2) + 1"
      using True pos by (subst expo.simps) simp
    have "2 powi (expo (x / 2) + 1) \<le> x" using ih by (simp add: pow2_Suc)
    moreover have "x < 2 powi (expo (x / 2) + 1 + 1)"
      using ih by (subst pow2_Suc) simp
    ultimately show ?thesis unfolding e by simp
  next
    case False
    show ?thesis
    proof (cases "x < 1")
      case True
      have ih: "2 powi expo (2 * x) \<le> 2 * x \<and> 2 * x < 2 powi (expo (2 * x) + 1)"
        using 1 pos False True by simp
      have e: "expo x = expo (2 * x) - 1"
        using True False pos by (subst expo.simps) simp
      have "2 powi (expo (2 * x) - 1) \<le> x" using ih by (simp add: pow2_pred)
      moreover have "x < 2 powi (expo (2 * x) - 1 + 1)"
        using ih by (simp add: pow2_Suc)
      ultimately show ?thesis unfolding e by simp
    next
      case nl: False
      have e: "expo x = 0"
        using nl False pos by (subst expo.simps) simp
      show ?thesis using nl False unfolding e by simp
    qed
  qed
qed

lemma pow2_mono: "k \<le> l \<Longrightarrow> (2::rat) powi k \<le> 2 powi l"
  by (rule power_int_increasing) simp_all

lemma pow2_strict: "k < l \<Longrightarrow> (2::rat) powi k < 2 powi l"
  by (rule power_int_strict_increasing) simp_all

lemma expo_unique:
  assumes "0 < x" "2 powi e \<le> x" "x < 2 powi (e + 1)"
  shows "expo x = e"
proof -
  have b: "2 powi expo x \<le> x" "x < 2 powi (expo x + 1)"
    using expo_bounds [OF assms(1)] by simp_all
  have "\<not> expo x < e"
  proof
    assume "expo x < e"
    then have "expo x + 1 \<le> e" by simp
    then have "(2::rat) powi (expo x + 1) \<le> 2 powi e" by (rule pow2_mono)
    then show False using b assms by simp
  qed
  moreover have "\<not> e < expo x"
  proof
    assume "e < expo x"
    then have "e + 1 \<le> expo x" by simp
    then have "(2::rat) powi (e + 1) \<le> 2 powi expo x" by (rule pow2_mono)
    then show False using b assms by simp
  qed
  ultimately show ?thesis by simp
qed

lemma roundHalfEven_of_int [simp]: "roundHalfEven (of_int z) = z"
  by (simp add: roundHalfEven_def)

lemma roundHalfEven_err: "\<bar>of_int (roundHalfEven y) - y\<bar> \<le> 1 / 2"
proof -
  have "of_int \<lfloor>y\<rfloor> \<le> y" "y < of_int \<lfloor>y\<rfloor> + 1" by linarith+
  then show ?thesis by (auto simp add: roundHalfEven_def Let_def)
qed

lemma roundHalfEven_mono: "y \<le> z \<Longrightarrow> roundHalfEven y \<le> roundHalfEven z"
proof -
  assume le: "y \<le> z"
  have fl: "\<lfloor>y\<rfloor> \<le> \<lfloor>z\<rfloor>" using le by (rule floor_mono)
  have by1: "of_int \<lfloor>y\<rfloor> \<le> y" "y < of_int \<lfloor>y\<rfloor> + 1" by linarith+
  have bz: "of_int \<lfloor>z\<rfloor> \<le> z" "z < of_int \<lfloor>z\<rfloor> + 1" by linarith+
  show ?thesis
  proof (cases "\<lfloor>y\<rfloor> = \<lfloor>z\<rfloor>")
    case True
    then show ?thesis using le by (auto simp add: roundHalfEven_def Let_def)
  next
    case False
    then have "\<lfloor>y\<rfloor> + 1 \<le> \<lfloor>z\<rfloor>" using fl by simp
    moreover have "roundHalfEven y \<le> \<lfloor>y\<rfloor> + 1" by (auto simp add: roundHalfEven_def Let_def)
    moreover have "\<lfloor>z\<rfloor> \<le> roundHalfEven z" by (auto simp add: roundHalfEven_def Let_def)
    ultimately show ?thesis by linarith
  qed
qed

lemma roundHalfEven_le: "y \<le> of_int n \<Longrightarrow> roundHalfEven y \<le> n"
  using roundHalfEven_mono [of y "of_int n"] by simp

lemma roundHalfEven_ge: "of_int n \<le> y \<Longrightarrow> n \<le> roundHalfEven y"
  using roundHalfEven_mono [of "of_int n" y] by simp


lemma expo_mono: "0 < x \<Longrightarrow> x \<le> y \<Longrightarrow> expo x \<le> expo y"
proof (rule ccontr)
  assume pos: "0 < x" and le: "x \<le> y" and n: "\<not> expo x \<le> expo y"
  have "expo y + 1 \<le> expo x" using n by simp
  then have "(2::rat) powi (expo y + 1) \<le> 2 powi expo x" by (rule pow2_mono)
  moreover have "y < 2 powi (expo y + 1)" using expo_bounds [of y] pos le by simp
  moreover have "2 powi expo x \<le> x" using expo_bounds [of x] pos by simp
  ultimately show False using le by simp
qed

lemma quantum_pos [simp]: "0 < quantum x"
  by (simp add: quantum_def)

lemma quantum_nz [simp]: "quantum x \<noteq> 0"
  by (simp add: quantum_def)

lemma pow2_53: "(2::rat) powi (k - 52) * 9007199254740992 = 2 powi (k + 1)"
proof -
  have "(2::rat) powi (k - 52 + 53) = 2 powi (k - 52) * 2 powi 53"
    by (rule power_int_add) simp
  moreover have "k - 52 + 53 = k + 1" by simp
  ultimately show ?thesis by simp
qed

lemma pow2_52: "(2::rat) powi (k - 52) * 4503599627370496 = 2 powi k"
proof -
  have "(2::rat) powi (k - 52 + 52) = 2 powi (k - 52) * 2 powi 52"
    by (rule power_int_add) simp
  then show ?thesis by simp
qed

lemma roundMag_nonneg: "0 < x \<Longrightarrow> 0 \<le> roundMag x"
proof -
  assume pos: "0 < x"
  have "0 \<le> x / quantum x"
    by (rule divide_nonneg_pos [OF less_imp_le [OF pos] quantum_pos])
  then have "of_int 0 \<le> x / quantum x" by simp
  then have "0 \<le> roundHalfEven (x / quantum x)" by (rule roundHalfEven_ge)
  then have "(0::rat) \<le> of_int (roundHalfEven (x / quantum x))" by simp
  then show ?thesis
    unfolding roundMag_def by (rule mult_nonneg_nonneg [OF _ less_imp_le [OF quantum_pos]])
qed

lemma roundMag_upper: "0 < x \<Longrightarrow> roundMag x \<le> 2 powi (binade x + 1)"
proof -
  assume pos: "0 < x"
  have "x < 2 powi (expo x + 1)" using expo_bounds [OF pos] by simp
  also have "\<dots> \<le> 2 powi (binade x + 1)" by (rule pow2_mono) (simp add: binade_def)
  finally have "x < quantum x * 9007199254740992" by (simp only: quantum_def pow2_53)
  then have "x / quantum x \<le> 9007199254740992"
    using quantum_pos [of x] by (simp add: field_simps)
  then have "x / quantum x \<le> of_int 9007199254740992" by simp
  then have "roundHalfEven (x / quantum x) \<le> 9007199254740992" by (rule roundHalfEven_le)
  then have "(of_int (roundHalfEven (x / quantum x)) :: rat) \<le> of_int 9007199254740992"
    by (simp only: of_int_le_iff)
  then have "of_int (roundHalfEven (x / quantum x)) * quantum x \<le> 9007199254740992 * quantum x"
    using quantum_pos [of x] by simp
  then have "roundMag x \<le> quantum x * 9007199254740992" by (simp add: roundMag_def mult.commute)
  then show ?thesis by (simp only: quantum_def pow2_53)
qed

lemma roundMag_lower: "0 < x \<Longrightarrow> - 1022 \<le> expo x \<Longrightarrow> 2 powi binade x \<le> roundMag x"
proof -
  assume pos: "0 < x" and n: "- 1022 \<le> expo x"
  have b: "binade x = expo x" using n by (simp add: binade_def)
  have "2 powi binade x \<le> x" using expo_bounds [OF pos] b by simp
  then have "quantum x * 4503599627370496 \<le> x" by (simp only: quantum_def pow2_52)
  then have "4503599627370496 \<le> x / quantum x"
    using quantum_pos [of x] by (simp add: field_simps)
  then have "of_int 4503599627370496 \<le> x / quantum x" by simp
  then have "4503599627370496 \<le> roundHalfEven (x / quantum x)" by (rule roundHalfEven_ge)
  then have "(of_int 4503599627370496 :: rat) \<le> of_int (roundHalfEven (x / quantum x))"
    by (simp only: of_int_le_iff)
  then have "4503599627370496 * quantum x \<le> of_int (roundHalfEven (x / quantum x)) * quantum x"
    using quantum_pos [of x] by simp
  then have "quantum x * 4503599627370496 \<le> roundMag x" by (simp add: roundMag_def mult.commute)
  then show ?thesis by (simp only: quantum_def pow2_52)
qed

lemma roundMag_mono: "0 < x \<Longrightarrow> x \<le> y \<Longrightarrow> roundMag x \<le> roundMag y"
proof -
  assume pos: "0 < x" and le: "x \<le> y"
  have posy: "0 < y" using pos le by simp
  have bb: "binade x \<le> binade y" using expo_mono [OF pos le] by (simp add: binade_def)
  show ?thesis
  proof (cases "binade x = binade y")
    case True
    then have q: "quantum x = quantum y" by (simp add: quantum_def)
    have "x / quantum y \<le> y / quantum y"
      by (rule divide_right_mono [OF le less_imp_le [OF quantum_pos]])
    then have "roundHalfEven (x / quantum y) \<le> roundHalfEven (y / quantum y)"
      by (rule roundHalfEven_mono)
    then have "(of_int (roundHalfEven (x / quantum y)) :: rat) \<le> of_int (roundHalfEven (y / quantum y))"
      by (simp only: of_int_le_iff)
    then show ?thesis by (simp add: roundMag_def q)
  next
    case False
    then have lt: "binade x + 1 \<le> binade y" using bb by simp
    then have n: "- 1022 \<le> expo y" by (simp add: binade_def)
    have "roundMag x \<le> 2 powi (binade x + 1)" using pos by (rule roundMag_upper)
    also have "\<dots> \<le> 2 powi binade y" using lt by (rule pow2_mono)
    also have "\<dots> \<le> roundMag y" using posy n by (rule roundMag_lower)
    finally show ?thesis .
  qed
qed

lemma roundPos_mono: "0 < x \<Longrightarrow> x \<le> y \<Longrightarrow> js_le (roundPos x) (roundPos y)"
  using roundMag_mono [of x y] by (simp add: roundPos_def Let_def)

lemma roundPos_nonneg: "0 < x \<Longrightarrow> js_le (Fin 0) (roundPos x)"
  using roundMag_nonneg [of x] by (simp add: roundPos_def Let_def)

lemma js_le_neg: "js_le a b \<Longrightarrow> js_le (js_neg b) (js_neg a)"
  by (cases a; cases b) simp_all

lemma js_le_trans: "js_le a b \<Longrightarrow> js_le b c \<Longrightarrow> js_le a c"
  by (cases a; cases b; cases c) simp_all

lemma toDouble_mono: "x \<le> y \<Longrightarrow> js_le (toDouble x) (toDouble y)"
proof -
  assume le: "x \<le> y"
  consider "0 < x" | "x = 0" "y = 0" | "x = 0" "0 < y" | "x < 0" "y < 0" | "x < 0" "y = 0" | "x < 0" "0 < y"
    using le by force
  then show ?thesis
  proof cases
    case 1
    then show ?thesis using le roundPos_mono [of x y] by (simp add: toDouble_def)
  next
    case 2
    then show ?thesis by (simp add: toDouble_def)
  next
    case 3
    then show ?thesis using roundPos_nonneg [of y] by (simp add: toDouble_def)
  next
    case 4
    then show ?thesis using le js_le_neg [OF roundPos_mono [of "- y" "- x"]] by (simp add: toDouble_def)
  next
    case 5
    then show ?thesis using js_le_neg [OF roundPos_nonneg [of "- x"]] by (simp add: toDouble_def)
  next
    case 6
    have "js_le (js_neg (roundPos (- x))) (js_neg (Fin 0))"
      using 6 js_le_neg [OF roundPos_nonneg [of "- x"]] by simp
    moreover have "js_le (js_neg (Fin 0)) (roundPos y)" using 6 roundPos_nonneg [of y] by simp
    ultimately have "js_le (js_neg (roundPos (- x))) (roundPos y)" by (rule js_le_trans)
    then show ?thesis using 6 by (simp add: toDouble_def)
  qed
qed


lemma pow2_less_cancel: "(2::rat) powi k < 2 powi l \<Longrightarrow> k < l"
proof (rule ccontr)
  assume a: "(2::rat) powi k < 2 powi l" and "\<not> k < l"
  then have "l \<le> k" by simp
  then have "(2::rat) powi l \<le> 2 powi k" by (rule pow2_mono)
  then show False using a by simp
qed

lemma binade_normal: "2 powi (- 1022) \<le> x \<Longrightarrow> binade x = expo x"
proof -
  assume n: "2 powi (- 1022) \<le> x"
  have pos: "0 < x" by (rule less_le_trans [OF _ n]) simp
  have "(2::rat) powi (- 1022) < 2 powi (expo x + 1)"
    by (rule le_less_trans [OF n]) (use expo_bounds [OF pos] in simp)
  then have "- 1022 < expo x + 1" by (rule pow2_less_cancel)
  then show ?thesis by (simp add: binade_def)
qed

lemma binade_subnormal: "0 < x \<Longrightarrow> x < 2 powi (- 1022) \<Longrightarrow> binade x = - 1022"
proof -
  assume pos: "0 < x" and s: "x < 2 powi (- 1022)"
  have "2 powi expo x \<le> x" using expo_bounds [OF pos] by simp
  then have "(2::rat) powi expo x < 2 powi (- 1022)" using s by simp
  then have "expo x < - 1022" by (rule pow2_less_cancel)
  then show ?thesis by (simp add: binade_def)
qed

lemma roundMag_err: "\<bar>roundMag x - x\<bar> \<le> quantum x / 2"
proof -
  have "\<bar>of_int (roundHalfEven (x / quantum x)) - x / quantum x\<bar> * quantum x \<le> 1 / 2 * quantum x"
    by (rule mult_right_mono [OF roundHalfEven_err less_imp_le [OF quantum_pos]])
  moreover have "\<bar>of_int (roundHalfEven (x / quantum x)) - x / quantum x\<bar> * quantum x
      = \<bar>(of_int (roundHalfEven (x / quantum x)) - x / quantum x) * quantum x\<bar>"
    using quantum_pos [of x] by (simp add: abs_mult abs_of_pos)
  moreover have "(of_int (roundHalfEven (x / quantum x)) - x / quantum x) * quantum x = roundMag x - x"
    using quantum_pos [of x] by (simp add: roundMag_def left_diff_distrib)
  ultimately show ?thesis by simp
qed

lemma quantum_normal: "2 powi (- 1022) \<le> x \<Longrightarrow> quantum x \<le> x / 4503599627370496"
proof -
  assume n: "2 powi (- 1022) \<le> x"
  have pos: "0 < x" by (rule less_le_trans [OF _ n]) simp
  have "quantum x * 4503599627370496 = 2 powi expo x"
    by (simp only: quantum_def binade_normal [OF n] pow2_52)
  also have "\<dots> \<le> x" using expo_bounds [OF pos] by simp
  finally show ?thesis by (simp add: field_simps)
qed

lemma roundMag_relative:
  "2 powi (- 1022) \<le> x \<Longrightarrow> \<bar>roundMag x - x\<bar> \<le> x / 9007199254740992"
  using roundMag_err [of x] quantum_normal [of x] by simp

lemma roundMag_exact: "x / quantum x = of_int n \<Longrightarrow> roundMag x = x"
proof -
  assume a: "x / quantum x = of_int n"
  have "roundMag x = of_int n * quantum x" unfolding roundMag_def a by simp
  also have "\<dots> = x / quantum x * quantum x" by (simp only: a)
  also have "\<dots> = x" using quantum_pos [of x] by simp
  finally show ?thesis .
qed

lemma roundMag_grid_exact: "grid x \<Longrightarrow> 0 < x \<Longrightarrow> x < 2 powi (- 1022) \<Longrightarrow> roundMag x = x"
proof -
  assume g: "grid x" and pos: "0 < x" and s: "x < 2 powi (- 1022)"
  obtain n :: int where n: "x = of_int n * 2 powi (- 1074)" using g by (auto simp add: grid_def)
  have q: "quantum x = 2 powi (- 1074)" by (simp add: quantum_def binade_subnormal [OF pos s])
  have "x / quantum x = of_int n" unfolding q by (subst n) simp
  then show ?thesis by (rule roundMag_exact)
qed

lemma quantum_grid: "\<exists>k::nat. quantum x = 2 ^ k * 2 powi (- 1074)"
proof -
  have "0 \<le> binade x + 1022" by (simp add: binade_def)
  then obtain k :: nat where k: "binade x + 1022 = int k" using nonneg_int_cases by blast
  have "binade x - 52 = int k + (- 1074)" using k by simp
  then have "quantum x = 2 powi (int k + (- 1074))" by (simp only: quantum_def)
  also have "\<dots> = 2 powi int k * 2 powi (- 1074)" by (rule power_int_add) simp
  finally show ?thesis by auto
qed

lemma roundMag_grid: "grid (roundMag x)"
proof -
  obtain k :: nat where k: "quantum x = 2 ^ k * 2 powi (- 1074)" using quantum_grid by blast
  have "roundMag x = of_int (roundHalfEven (x / quantum x) * 2 ^ k) * 2 powi (- 1074)"
    unfolding roundMag_def by (subst (2) k) simp
  then show ?thesis unfolding grid_def by blast
qed

lemma grid_neg: "grid x \<Longrightarrow> grid (- x)"
proof -
  assume "grid x"
  then obtain n :: int where "x = of_int n * 2 powi (- 1074)" by (auto simp add: grid_def)
  then have "- x = of_int (- n) * 2 powi (- 1074)" by simp
  then show ?thesis unfolding grid_def by blast
qed

lemma grid_diff: "grid x \<Longrightarrow> grid y \<Longrightarrow> grid (x - y)"
proof -
  assume "grid x" "grid y"
  then obtain n m :: int where "x = of_int n * 2 powi (- 1074)" "y = of_int m * 2 powi (- 1074)"
    by (auto simp add: grid_def)
  then have "x - y = of_int (n - m) * 2 powi (- 1074)" by (simp add: left_diff_distrib)
  then show ?thesis unfolding grid_def by blast
qed

lemma grid_0 [simp]: "grid 0"
  unfolding grid_def by (rule exI [of _ 0]) simp

lemma toDouble_Fin:
  assumes "toDouble x = Fin y"
  shows "grid y \<and> \<bar>y\<bar> < 2 ^ 1024"
proof -
  consider "x = 0" | "0 < x" | "x < 0" by force
  then show ?thesis
  proof cases
    case 1
    then show ?thesis using assms by (auto simp add: toDouble_def)
  next
    case 2
    then have "y = roundMag x" "roundMag x < 2 ^ 1024"
      using assms by (auto simp add: toDouble_def roundPos_def Let_def split: if_splits)
    then show ?thesis using roundMag_grid [of x] roundMag_nonneg [OF 2] by simp
  next
    case 3
    then have y: "y = - roundMag (- x)" "roundMag (- x) < 2 ^ 1024"
      using assms by (auto simp add: toDouble_def roundPos_def Let_def split: if_splits)
    have "0 \<le> roundMag (- x)" using 3 by (simp add: roundMag_nonneg)
    then show ?thesis using y grid_neg [OF roundMag_grid [of "- x"]] by simp
  qed
qed

lemma toDouble_of_nat_small:
  assumes pos: "0 < k" and small: "k < 2 ^ 53"
  shows "toDouble (of_int k) = Fin (of_int k)"
proof -
  let ?x = "of_int k :: rat"
  have x1: "1 \<le> ?x" using pos by simp
  have xpos: "0 < ?x" using pos by simp
  have "(2::rat) powi (- 1022) \<le> 2 powi 0" by (rule pow2_mono) simp
  then have n: "2 powi (- 1022) \<le> ?x" using x1 by (simp only: power_int_0_right)
  have b: "binade ?x = expo ?x" using n by (rule binade_normal)
  have "(2::rat) powi 0 < 2 powi (expo ?x + 1)"
    using expo_bounds [OF xpos] x1 by simp
  then have e0: "0 < expo ?x + 1" by (rule pow2_less_cancel)
  have xs: "?x < of_int (2 ^ 53)" using small by (simp only: of_int_less_iff)
  then have "?x < 2 powi 53" by simp
  then have "(2::rat) powi expo ?x < 2 powi 53"
    using expo_bounds [OF xpos] by simp
  then have e53: "expo ?x < 53" by (rule pow2_less_cancel)
  obtain j :: nat where j: "52 - expo ?x = int j" using e53 nonneg_int_cases [of "52 - expo ?x"] by auto
  have "(2::rat) powi (expo ?x - 52) * 2 powi (int j) = 2 powi (expo ?x - 52 + int j)"
    by (rule power_int_add [symmetric]) simp
  also have "expo ?x - 52 + int j = 0" using j by simp
  finally have q: "quantum ?x * 2 ^ j = 1" by (simp add: quantum_def b)
  have "?x / quantum ?x = ?x * (quantum ?x * 2 ^ j) / quantum ?x" by (simp only: q mult_1_right)
  also have "\<dots> = of_int (k * 2 ^ j)" by simp
  finally have "roundMag ?x = ?x" by (rule roundMag_exact)
  moreover have "?x < 2 ^ 1024"
    by (rule less_trans [OF xs]) simp
  ultimately show ?thesis using xpos by (simp add: toDouble_def roundPos_def)
qed

lemma toDouble_of_int:
  assumes "\<bar>k\<bar> < 2 ^ 53"
  shows "toDouble (of_int k) = Fin (of_int k)"
proof -
  consider "k = 0" | "0 < k" | "k < 0" by force
  then show ?thesis
  proof cases
    case 1
    then show ?thesis by (simp add: toDouble_def)
  next
    case 2
    then show ?thesis using assms by (simp add: toDouble_of_nat_small)
  next
    case 3
    then have "toDouble (of_int (- k)) = Fin (of_int (- k))"
      using assms by (intro toDouble_of_nat_small) simp_all
    then show ?thesis using 3 by (simp add: toDouble_def split: if_splits)
  qed
qed


lemma toDouble_numeral [simp]:
  "(numeral n :: int) < 2 ^ 53 \<Longrightarrow> toDouble (numeral n) = Fin (numeral n)"
  using toDouble_of_int [of "numeral n"] by simp

lemma toDouble_1 [simp]: "toDouble 1 = Fin 1"
  using toDouble_of_int [of 1] by simp

lemma grid_abs: "grid x \<Longrightarrow> grid \<bar>x\<bar>"
  by (cases "0 \<le> x") (simp_all add: grid_neg abs_if)

lemma roundPos_abs: "0 < x \<Longrightarrow> js_abs (roundPos x) = roundPos x"
  using roundMag_nonneg [of x] by (simp add: roundPos_def Let_def)

lemma js_abs_neg [simp]: "js_abs (js_neg a) = js_abs a"
  by (cases a) simp_all

lemma js_abs_toDouble: "x \<noteq> 0 \<Longrightarrow> js_abs (toDouble x) = roundPos \<bar>x\<bar>"
  by (cases "0 < x") (simp_all add: toDouble_def roundPos_abs)

lemma roundMag_close:
  assumes g: "grid a" and pos: "0 < a"
  shows "\<bar>roundMag a - a\<bar> \<le> a / 9007199254740992"
proof (cases "a < 2 powi (- 1022)")
  case True
  then have "roundMag a = a" using g pos by (simp only: roundMag_grid_exact)
  then show ?thesis using pos by simp
next
  case False
  then show ?thesis by (simp only: roundMag_relative not_less)
qed

lemma toDouble_hundredth: "toDouble (1 / 100) = Fin (5764607523034235 / 576460752303423488)"
  by (simp add: double_defs)

lemma toDouble_above: "toDouble (703687441777 / 70368744177664) = Fin (703687441777 / 70368744177664)"
  by (simp add: double_defs)

lemma toDouble_below: "toDouble (703687441776 / 70368744177664) = Fin (703687441776 / 70368744177664)"
  by (simp add: double_defs)

lemma toDouble_0 [simp]: "toDouble 0 = Fin 0"
  by (simp add: toDouble_def)

lemma decide_hi:
  assumes gs: "grid s" and gm: "grid m"
    and r: "1 / 100 + 1 / 10 ^ 14 \<le> \<bar>m - s\<bar> / (if s = 0 then 1 else s)"
  shows "js_gt (relDiff s m) (toDouble (1 / 100))"
proof -
  define d where "d = (if s = 0 then 1 else s)"
  define a where "a = \<bar>m - s\<bar>"
  have r': "1 / 100 + 1 / 10 ^ 14 \<le> a / d" using r by (simp only: d_def a_def)
  have dpos: "0 < d"
  proof (rule ccontr)
    assume "\<not> 0 < d"
    then have "a / d \<le> 0" by (simp add: a_def divide_nonneg_nonpos divide_le_0_iff)
    moreover have "(0::rat) < 1 / 100 + 1 / 10 ^ 14" by simp
    ultimately show False using r' by linarith
  qed
  have apos: "0 < a"
  proof (rule ccontr)
    assume "\<not> 0 < a"
    then have "a = 0" by (simp add: a_def)
    then show False using r' by simp
  qed
  have ne: "m - s \<noteq> 0" using apos by (simp add: a_def)
  have ga: "grid a" unfolding a_def by (rule grid_abs [OF grid_diff [OF gm gs]])
  have ad: "(1 / 100 + 1 / 10 ^ 14) * d \<le> a" using r' dpos by (simp add: field_simps)
  define y where "y = roundMag a"
  have close: "\<bar>y - a\<bar> \<le> a / 9007199254740992" unfolding y_def by (rule roundMag_close [OF ga apos])
  have rd: "relDiff s m = js_div (roundPos a) (Fin d)"
    using ne by (simp add: relDiff_def d_def a_def js_abs_toDouble)
  show ?thesis
  proof (cases "2 ^ 1024 \<le> y")
    case True
    then have "relDiff s m = PInf" using dpos by (simp add: rd roundPos_def y_def)
    then show ?thesis by (simp add: toDouble_hundredth)
  next
    case False
    then have e: "relDiff s m = toDouble (y / d)" using dpos by (simp add: rd roundPos_def y_def)
    have "- (y - a) \<le> a / 9007199254740992" using close unfolding abs_le_iff by (rule conjunct2)
    then have "703687441777 / 70368744177664 * d \<le> y" using ad dpos by simp
    then have "703687441777 / 70368744177664 \<le> y / d" using dpos by (simp add: field_simps)
    then have "js_le (toDouble (703687441777 / 70368744177664)) (toDouble (y / d))"
      by (rule toDouble_mono)
    then show ?thesis unfolding e toDouble_above toDouble_hundredth
      by (cases "toDouble (y / d)") simp_all
  qed
qed

lemma decide_lo:
  assumes gs: "grid s" and gm: "grid m" and bs: "\<bar>s\<bar> < 2 ^ 1024"
    and r: "\<bar>m - s\<bar> / (if s = 0 then 1 else s) \<le> 1 / 100 - 1 / 10 ^ 14"
  shows "\<not> js_gt (relDiff s m) (toDouble (1 / 100))"
proof (cases "m = s")
  case True
  then show ?thesis by (simp add: relDiff_def toDouble_hundredth)
next
  case False
  define d where "d = (if s = 0 then 1 else s)"
  define a where "a = \<bar>m - s\<bar>"
  have r': "a / d \<le> 1 / 100 - 1 / 10 ^ 14" using r by (simp only: d_def a_def)
  have apos: "0 < a" using False by (simp add: a_def)
  have dnz: "d \<noteq> 0" by (simp add: d_def)
  have dlt: "d < 2 ^ 1024" using bs by (auto simp add: d_def abs_less_iff)
  have ne: "m - s \<noteq> 0" using False by simp
  have ga: "grid a" unfolding a_def by (rule grid_abs [OF grid_diff [OF gm gs]])
  define y where "y = roundMag a"
  have close: "\<bar>y - a\<bar> \<le> a / 9007199254740992" unfolding y_def by (rule roundMag_close [OF ga apos])
  have ynn: "0 \<le> y" unfolding y_def by (rule roundMag_nonneg [OF apos])
  have rd: "relDiff s m = js_div (roundPos a) (Fin d)"
    using ne by (simp add: relDiff_def d_def a_def js_abs_toDouble)
  show ?thesis
  proof (cases "0 < d")
    case True
    have ad: "a \<le> (1 / 100 - 1 / 10 ^ 14) * d" using r' True by (simp add: field_simps)
    have "y - a \<le> a / 9007199254740992" using close unfolding abs_le_iff by (rule conjunct1)
    then have yd: "y \<le> 703687441776 / 70368744177664 * d"
      using ad True by simp
    have "y < 2 ^ 1024" using yd dlt True by simp
    then have e: "relDiff s m = toDouble (y / d)" using dnz by (simp add: rd roundPos_def y_def)
    have "y / d \<le> 703687441776 / 70368744177664" using yd True by (simp add: field_simps)
    then have "js_le (toDouble (y / d)) (toDouble (703687441776 / 70368744177664))"
      by (rule toDouble_mono)
    then show ?thesis unfolding e toDouble_below toDouble_hundredth
      by (cases "toDouble (y / d)") simp_all
  next
    case neg: False
    then have dneg: "d < 0" using dnz by simp
    show ?thesis
    proof (cases "2 ^ 1024 \<le> y")
      case True
      then have "relDiff s m = NInf" using dneg by (simp add: rd roundPos_def y_def)
      then show ?thesis by (simp add: toDouble_hundredth)
    next
      case False
      then have e: "relDiff s m = toDouble (y / d)" using dnz by (simp add: rd roundPos_def y_def)
      have "y / d \<le> 0" using ynn dneg by (simp add: divide_nonneg_neg)
      then have "js_le (toDouble (y / d)) (toDouble 0)" by (rule toDouble_mono)
      then show ?thesis unfolding e toDouble_hundredth
        by (cases "toDouble (y / d)") simp_all
    qed
  qed
qed

lemma toDouble_overflow:
  assumes "2 powi 1024 \<le> x"
  shows "toDouble x = PInf"
proof -
  have pos: "0 < x" by (rule less_le_trans [OF _ assms]) simp
  have "(2::rat) powi 1024 < 2 powi (expo x + 1)"
    by (rule le_less_trans [OF assms]) (use expo_bounds [OF pos] in simp)
  then have e: "1024 < expo x + 1" by (rule pow2_less_cancel)
  then have b: "1024 \<le> binade x" by (simp add: binade_def)
  have "(2::rat) powi 1024 \<le> 2 powi binade x" using b by (rule pow2_mono)
  also have "\<dots> \<le> roundMag x" using pos e by (intro roundMag_lower) simp_all
  finally have "2 ^ 1024 \<le> roundMag x" by simp
  then show ?thesis using pos by (simp add: toDouble_def roundPos_def)
qed

subsection \<open>Evaluation of the parsers\<close>

lemmas parse_defs = parseFloatStr_def trimStart_def isWhiteSpace_def unsignedLiteral_def
  strDecimal_def isDigit_def digitsVal_def digitVal_def exponentPart_def scale10_def parseInt10_def

lemma parse_half: "parseFloatStr ''0.5'' = Fin (1 / 2)"
  by (simp add: parse_defs double_defs)

lemma parse_65_128: "parseFloatStr ''0.5078125'' = Fin (65 / 128)"
  by (simp add: parse_defs double_defs)

lemma parse_abc: "parseFloatStr ''abc'' = NaN"
  by (simp add: parse_defs)

lemma parse_1_00: "parseFloatStr ''1.00'' = Fin 1"
  by (simp add: parse_defs double_defs)

lemma parse_1_01: "parseFloatStr ''1.01'' = Fin (4548635623644201 / 4503599627370496)"
  by (simp add: parse_defs double_defs)

lemma parse_1e400: "parseFloatStr ''1e400'' = PInf"
proof -
  have "(2::rat) powi 1024 \<le> 10 ^ 400" by simp
  then have "toDouble (10 ^ 400) = PInf" by (rule toDouble_overflow)
  then show ?thesis by (simp add: parse_defs)
qed

subsection \<open>The change detector\<close>

lemma unsignedLiteral_Fin: "unsignedLiteral u = Fin y \<Longrightarrow> \<exists>q. toDouble q = Fin y"
  by (auto simp add: unsignedLiteral_def strDecimal_def Let_def
      split: if_splits option.splits list.splits prod.splits)

lemma parseFloatStr_Fin: "parseFloatStr s = Fin y \<Longrightarrow> \<exists>q. toDouble q = Fin y \<or> toDouble q = Fin (- y)"
proof -
  assume a: "parseFloatStr s = Fin y"
  show ?thesis
  proof (cases "trimStart s")
    case Nil
    then show ?thesis using a by (simp add: parseFloatStr_def)
  next
    case (Cons c t)
    show ?thesis
    proof (cases "c = CHR ''-''")
      case True
      then have "js_neg (unsignedLiteral t) = Fin y" using a Cons by (simp add: parseFloatStr_def)
      then have "unsignedLiteral t = Fin (- y)" by (cases "unsignedLiteral t") simp_all
      then show ?thesis using unsignedLiteral_Fin by blast
    next
      case False
      then have "unsignedLiteral t = Fin y \<or> unsignedLiteral (c # t) = Fin y"
        using a Cons by (simp add: parseFloatStr_def split: if_splits)
      then show ?thesis using unsignedLiteral_Fin by blast
    qed
  qed
qed

lemma parseFloat_double:
  assumes "parseFloat v = Fin y"
  shows "grid y \<and> \<bar>y\<bar> < 2 ^ 1024"
proof -
  have "\<exists>q. toDouble q = Fin y \<or> toDouble q = Fin (- y)"
  proof (cases v)
    case (JStr s)
    then show ?thesis using assms parseFloatStr_Fin by simp
  next
    case (JNum n)
    then show ?thesis using assms by (cases n) auto
  qed
  then obtain q where "toDouble q = Fin y \<or> toDouble q = Fin (- y)" by blast
  then show ?thesis
  proof
    assume "toDouble q = Fin y"
    then show ?thesis by (rule toDouble_Fin)
  next
    assume "toDouble q = Fin (- y)"
    then have "grid (- y) \<and> \<bar>- y\<bar> < 2 ^ 1024" by (rule toDouble_Fin)
    then show ?thesis using grid_neg [of "- y"] by simp
  qed
qed

lemma needsUpdate_Fin:
  "parseFloat sp = Fin s \<Longrightarrow> parseFloat mp = Fin m \<Longrightarrow>
   needsUpdate sp mp = js_gt (relDiff s m) (toDouble (1 / 100))"
  by (simp add: needsUpdate_def relDiff_def Let_def)

lemma needsUpdate_NaN:
  "isNaN (parseFloat sp) \<or> isNaN (parseFloat mp) \<Longrightarrow> \<not> needsUpdate sp mp"
  by (auto simp add: needsUpdate_def Let_def)

lemma needsUpdate_above:
  assumes "parseFloat sp = Fin s" and "parseFloat mp = Fin m"
    and "1 / 100 + 1 / 10 ^ 14 \<le> \<bar>m - s\<bar> / (if s = 0 then 1 else s)"
  shows "needsUpdate sp mp"
proof -
  have "js_gt (relDiff s m) (toDouble (1 / 100))"
    using parseFloat_double [OF assms(1)] parseFloat_double [OF assms(2)] assms(3)
    by (intro decide_hi) simp_all
  then show ?thesis by (simp add: needsUpdate_Fin [OF assms(1) assms(2)])
qed

lemma needsUpdate_below:
  assumes "parseFloat sp = Fin s" and "parseFloat mp = Fin m"
    and "\<bar>m - s\<bar> / (if s = 0 then 1 else s) \<le> 1 / 100 - 1 / 10 ^ 14"
  shows "\<not> needsUpdate sp mp"
proof -
  have "\<not> js_gt (relDiff s m) (toDouble (1 / 100))"
    using parseFloat_double [OF assms(1)] parseFloat_double [OF assms(2)] assms(3)
    by (intro decide_lo) simp_all
  then show ?thesis by (simp add: needsUpdate_Fin [OF assms(1) assms(2)])
qed

lemma needsUpdate_infinite_shop:
  "parseFloat sp = PInf \<or> parseFloat sp = NInf \<Longrightarrow> \<not> needsUpdate sp mp"
  by (cases "parseFloat mp") (auto simp add: needsUpdate_def Let_def toDouble_hundredth)

lemma needsUpdate_infinite_ml:
  "parseFloat sp = Fin s \<Longrightarrow> parseFloat mp = PInf \<or> parseFloat mp = NInf \<Longrightarrow>
   needsUpdate sp mp = (0 \<le> s)"
  by (auto simp add: needsUpdate_def Let_def toDouble_hundredth split: if_splits)

text \<open>
  C1, as the code has it.  When both prices parse to finite doubles \<open>s\<close> (storefront)
  and \<open>m\<close> (marketplace), \<open>needsUpdate\<close> is true exactly when the double quotient of
  the double difference \<open>|m - s|\<close> by \<open>d\<close> is greater than the double nearest to 0.01,
  where the divisor \<open>d\<close> is \<open>s\<close> itself unless \<open>s\<close> is zero, in which case it is 1.
  In exact arithmetic this is true whenever \<open>|m - s| / d\<close> is at least
  \<open>0.01 + 10^-14\<close> and false whenever it is at most \<open>0.01 - 10^-14\<close>; in between, the
  rounding decides.  When either price parses to NaN the result is false.  An infinite
  storefront price gives false, an infinite marketplace price against a finite
  storefront price \<open>s\<close> gives true exactly when \<open>s\<close> is not negative.
\<close>

theorem needsUpdate_rule:
  "(parseFloat sp = Fin s \<and> parseFloat mp = Fin m \<longrightarrow>
      needsUpdate sp mp =
        js_gt (js_div (js_abs (js_sub (Fin m) (Fin s))) (Fin (if s = 0 then 1 else s)))
              (toDouble (1 / 100))
      \<and> (1 / 100 + 1 / 10 ^ 14 \<le> \<bar>m - s\<bar> / (if s = 0 then 1 else s) \<longrightarrow> needsUpdate sp mp)
      \<and> (\<bar>m - s\<bar> / (if s = 0 then 1 else s) \<le> 1 / 100 - 1 / 10 ^ 14 \<longrightarrow> \<not> needsUpdate sp mp))
   \<and> (isNaN (parseFloat sp) \<or> isNaN (parseFloat mp) \<longrightarrow> \<not> needsUpdate sp mp)
   \<and> (parseFloat sp = PInf \<or> parseFloat sp = NInf \<longrightarrow> \<not> needsUpdate sp mp)
   \<and> (parseFloat sp = Fin s \<and> (parseFloat mp = PInf \<or> parseFloat mp = NInf) \<longrightarrow>
        needsUpdate sp mp = (0 \<le> s))"
proof (intro conjI impI)
  assume a: "parseFloat sp = Fin s \<and> parseFloat mp = Fin m"
  then show "needsUpdate sp mp =
        js_gt (js_div (js_abs (js_sub (Fin m) (Fin s))) (Fin (if s = 0 then 1 else s)))
              (toDouble (1 / 100))"
    using needsUpdate_Fin [of sp s mp m] by (simp only: relDiff_def)
  show "needsUpdate sp mp" if "1 / 100 + 1 / 10 ^ 14 \<le> \<bar>m - s\<bar> / (if s = 0 then 1 else s)"
    using a that needsUpdate_above [of sp s mp m] by blast
  show "\<not> needsUpdate sp mp" if "\<bar>m - s\<bar> / (if s = 0 then 1 else s) \<le> 1 / 100 - 1 / 10 ^ 14"
    using a that needsUpdate_below [of sp s mp m] by blast
next
  assume "isNaN (parseFloat sp) \<or> isNaN (parseFloat mp)"
  then show "\<not> needsUpdate sp mp" by (rule needsUpdate_NaN)
next
  assume "parseFloat sp = PInf \<or> parseFloat sp = NInf"
  then show "\<not> needsUpdate sp mp" by (rule needsUpdate_infinite_shop)
next
  assume "parseFloat sp = Fin s \<and> (parseFloat mp = PInf \<or> parseFloat mp = NInf)"
  then show "needsUpdate sp mp = (0 \<le> s)" using needsUpdate_infinite_ml [of sp s mp] by blast
qed

theorem needsUpdate_rule_witness:
  "parseFloat (JStr ''0.5'') = Fin (1 / 2) \<and> parseFloat (JStr ''0.5078125'') = Fin (65 / 128)
   \<and> needsUpdate (JStr ''0.5'') (JStr ''0.5078125'')
   \<and> parseFloat (JStr ''1.00'') = Fin 1
   \<and> parseFloat (JStr ''1.01'') = Fin (4548635623644201 / 4503599627370496)
   \<and> needsUpdate (JStr ''1.00'') (JStr ''1.01'')
   \<and> \<not> needsUpdate (JStr ''1.00'') (JStr ''1.00'')
   \<and> isNaN (parseFloat (JStr ''abc'')) \<and> \<not> needsUpdate (JStr ''abc'') (JStr ''0.5'')
   \<and> parseFloat (JStr ''1e400'') = PInf \<and> \<not> needsUpdate (JStr ''1e400'') (JStr ''0.5'')
   \<and> needsUpdate (JStr ''0.5'') (JStr ''1e400'')"
  using needsUpdate_rule [of "JStr ''0.5''" "1 / 2" "JStr ''0.5078125''" "65 / 128"]
        needsUpdate_rule [of "JStr ''1.00''" 1 "JStr ''1.01''" "4548635623644201 / 4503599627370496"]
        needsUpdate_rule [of "JStr ''1.00''" 1 "JStr ''1.00''" 1]
        needsUpdate_rule [of "JStr ''abc''" 0 "JStr ''0.5''" 0]
        needsUpdate_rule [of "JStr ''1e400''" 0 "JStr ''0.5''" 0]
        needsUpdate_rule [of "JStr ''0.5''" "1 / 2" "JStr ''1e400''" 0]
  by (simp add: parse_half parse_65_128 parse_abc parse_1_00 parse_1_01 parse_1e400 double_defs)

text \<open>
  C1 as the specification states it, with the divisor \<open>max(s, 1)\<close>, fails for a
  storefront price below 1: for the prices 0.5 and 0.5078125, which are doubles, the
  code answers true (the difference 0.0078125 and the quotient 0.015625 are exact), the
  stated rule false (0.0078125 / 1 is below 0.01).
\<close>

theorem needsUpdate_max_counterexample:
  "parseFloat (JStr ''0.5'') = Fin (1 / 2) \<and> parseFloat (JStr ''0.5078125'') = Fin (65 / 128)
   \<and> needsUpdate (JStr ''0.5'') (JStr ''0.5078125'')
   \<and> \<not> shouldUpdate_spec (1 / 2) (65 / 128)"
  by (simp add: parse_half parse_65_128 needsUpdate_def shouldUpdate_spec_def double_defs)


subsection \<open>Entries without a SKU\<close>

lemma trim_all_white: "list_all isWhiteSpace s \<Longrightarrow> trim s = []"
proof -
  assume "list_all isWhiteSpace s"
  then have e: "dropWhile isWhiteSpace s = []"
    by (simp add: list_all_iff)
  show ?thesis
    by (simp add: trim_def trimStart_def trimEnd_def e)
qed

text \<open>
  C6.  For an entry whose variant SKU is absent, empty or made of white space only,
  \<open>processVariantEntry\<close> returns at once and leaves the state as it was: no
  marketplace fetch, no storefront write, no console line.  The same holds in the
  second variant.
\<close>

theorem blank_sku_untouched:
  "list_all isWhiteSpace (case sku (variant entry) of None \<Rightarrow> [] | Some s \<Rightarrow> s) \<Longrightarrow>
   processVariantEntry srv entry w = (Inr (), w) \<and> processVariantEntry2 srv entry w = (Inr (), w)"
  by (simp add: processVariantEntry_def processVariantEntry2_def trimmedSku_def trim_all_white)

theorem blank_sku_untouched_witness:
  "list_all isWhiteSpace (case sku (variant (mkEntry 1 ''  '' ''10.00'')) of None \<Rightarrow> [] | Some s \<Rightarrow> s)
   \<and> processVariantEntry (shop [] (mlPrice 20)) (mkEntry 1 ''  '' ''10.00'') world0 = (Inr (), world0)
   \<and> trace world0 = []"
  using blank_sku_untouched [of "mkEntry 1 ''  '' ''10.00''" "shop [] (mlPrice 20)" world0]
  by (simp add: mkEntry_def mkVariant_def isWhiteSpace_def world0_def)


subsection \<open>Rate limiting\<close>








lemma timerDelay_default: "timerDelay (js_mul (Fin 5) (Fin 1000)) = 5000"
  by (simp add: timerDelay_def)






subsection \<open>The two variants agree\<close>

lemma shopifyGet2_eq: "shopifyGet2 = shopifyGet"
  by (simp add: fun_eq_iff shopifyGet2_def shopifyGet_def)

lemma pushVariants2_eq: "pushVariants2 limit p vs results = pushVariants limit p vs results"
  by (induction vs arbitrary: results) (simp_all add: Let_def)

lemma pushProducts2_eq: "pushProducts2 limit ps results = pushProducts limit ps results"
  by (induction ps arbitrary: results) (simp_all add: Let_def pushVariants2_eq)

lemma matchVariants2_eq: "matchVariants2 t p vs ms = matchVariants t p vs ms"
  by (induction vs arbitrary: ms) simp_all

lemma matchProducts2_eq: "matchProducts2 t ps ms = matchProducts t ps ms"
  by (induction ps arbitrary: ms) (simp_all add: matchVariants2_eq)

lemma listVariantsLoop_le2:
  "listVariantsLoop srv limit since_id results w = Some y \<Longrightarrow>
   listVariantsLoop2 srv limit since_id results w = Some y"
proof (induction rule: listVariantsLoop.raw_induct [rotated 1, consumes 1])
  case (1 loop srv limit since_id results w y)
  show ?case
    using 1
    by (cases y, subst listVariantsLoop2.simps)
       (auto simp add: shopifyGet2_eq pushProducts2_eq Let_def
             split: if_splits prod.splits sum.splits)
qed

lemma listVariantsLoop2_le:
  "listVariantsLoop2 srv limit since_id results w = Some y \<Longrightarrow>
   listVariantsLoop srv limit since_id results w = Some y"
proof (induction rule: listVariantsLoop2.raw_induct [rotated 1, consumes 1])
  case (1 loop srv limit since_id results w y)
  show ?case
    using 1
    by (cases y, subst listVariantsLoop.simps)
       (auto simp add: shopifyGet2_eq pushProducts2_eq Let_def
             split: if_splits prod.splits sum.splits)
qed

lemma listVariantsLoop2_eq:
  "listVariantsLoop2 srv limit since_id results w = listVariantsLoop srv limit since_id results w"
proof (cases "listVariantsLoop srv limit since_id results w")
  case None
  then show ?thesis
    by (cases "listVariantsLoop2 srv limit since_id results w")
       (auto dest: listVariantsLoop2_le)
next
  case (Some y)
  then show ?thesis
    by (simp add: listVariantsLoop_le2)
qed


lemma findVariantsLoop_le2:
  "findVariantsLoop srv t since_id ms w = Some y \<Longrightarrow>
   findVariantsLoop2 srv t since_id ms w = Some y"
proof (induction rule: findVariantsLoop.raw_induct [rotated 1, consumes 1])
  case (1 loop srv t since_id ms w y)
  show ?case
    using 1
    by (cases y, subst findVariantsLoop2.simps)
       (auto simp add: shopifyGet2_eq matchProducts2_eq Let_def
             split: if_splits prod.splits sum.splits)
qed

lemma findVariantsLoop2_le:
  "findVariantsLoop2 srv t since_id ms w = Some y \<Longrightarrow>
   findVariantsLoop srv t since_id ms w = Some y"
proof (induction rule: findVariantsLoop2.raw_induct [rotated 1, consumes 1])
  case (1 loop srv t since_id ms w y)
  show ?case
    using 1
    by (cases y, subst findVariantsLoop.simps)
       (auto simp add: shopifyGet2_eq matchProducts2_eq Let_def
             split: if_splits prod.splits sum.splits)
qed

lemma findVariantsLoop2_eq:
  "findVariantsLoop2 srv t since_id ms w = findVariantsLoop srv t since_id ms w"
proof (cases "findVariantsLoop srv t since_id ms w")
  case None
  then show ?thesis
    by (cases "findVariantsLoop2 srv t since_id ms w")
       (auto dest: findVariantsLoop2_le)
next
  case (Some y)
  then show ?thesis
    by (simp add: findVariantsLoop_le2)
qed

lemma needsUpdate2_eq: "needsUpdate2 = needsUpdate"
  by (simp add: fun_eq_iff needsUpdate2_def needsUpdate_def)

lemma fetchMlItem2_eq: "fetchMlItem2 = fetchMlItem"
  by (simp add: fun_eq_iff fetchMlItem2_def fetchMlItem_def)

lemma listVariantsBatch2_eq: "listVariantsBatch2 = listVariantsBatch"
  by (simp add: fun_eq_iff listVariantsBatch2_def listVariantsBatch_def listVariantsLoop2_eq)

lemma findVariantsBySku2_eq: "findVariantsBySku2 = findVariantsBySku"
  by (simp add: fun_eq_iff findVariantsBySku2_def findVariantsBySku_def findVariantsLoop2_eq)

text \<open>
  C10.  The two variants of the program agree on \<open>needsUpdate\<close>, \<open>fetchMlItem\<close>,
  \<open>listVariantsBatch\<close> and \<open>findVariantsBySku\<close>: for every input, and every
  behaviour of the remote services, the function of the second variant returns what
  the function of the first variant returns (and does not return when the other
  does not).
\<close>

theorem variants_agree:
  "needsUpdate2 = needsUpdate \<and> fetchMlItem2 = fetchMlItem
   \<and> listVariantsBatch2 = listVariantsBatch \<and> findVariantsBySku2 = findVariantsBySku"
  by (simp add: needsUpdate2_eq fetchMlItem2_eq listVariantsBatch2_eq findVariantsBySku2_eq)

lemma shopifyGet_empty:
  "shopifyGet (shop [] r) n w = (Inr [], emit (ShopifyGet n) w)"
  by (simp add: shopifyGet_def shop_def catalogServer_def catalogPage_def ok_def)

theorem variants_agree_witness:
  "needsUpdate2 (JStr ''0.5'') (JStr ''0.5078125'')
   \<and> listVariantsBatch2 (shop [] (mlPrice 1)) (Fin 0) world0 = Some (Inr [], emit (ShopifyGet 0) world0)
   \<and> findVariantsBySku2 (shop [] (mlPrice 1)) ''X1'' world0 = Some (Inr [], emit (ShopifyGet 0) world0)"
proof -
  have a: "needsUpdate (JStr ''0.5'') (JStr ''0.5078125'')"
    by (simp add: needsUpdate_def parse_half parse_65_128 double_defs)
  have b: "listVariantsBatch (shop [] (mlPrice 1)) (Fin 0) world0 = Some (Inr [], emit (ShopifyGet 0) world0)"
    unfolding listVariantsBatch_def
    by (subst listVariantsLoop.simps) (simp add: shopifyGet_empty limitLe0_def)
  have c: "findVariantsBySku (shop [] (mlPrice 1)) ''X1'' world0 = Some (Inr [], emit (ShopifyGet 0) world0)"
    unfolding findVariantsBySku_def
    by (subst findVariantsLoop.simps) (simp add: shopifyGet_empty)
  show ?thesis
    using variants_agree a b c by simp
qed


subsection \<open>Pagination over a catalog\<close>

lemma ceiling_above: "rat_of_nat n < q \<Longrightarrow> n < nat \<lceil>q\<rceil>"
proof -
  assume "rat_of_nat n < q"
  then have "rat_of_int (int n) < q" by simp
  then have "int n < \<lceil>q\<rceil>" by (simp only: less_ceiling_iff)
  then show ?thesis by simp
qed

lemma ceiling_below: "q \<le> rat_of_nat n \<Longrightarrow> nat \<lceil>q\<rceil> \<le> n"
proof -
  assume "q \<le> rat_of_nat n"
  then have "q \<le> rat_of_int (int n)" by simp
  then have "\<lceil>q\<rceil> \<le> int n" by (simp only: ceiling_le_iff)
  then show ?thesis by simp
qed

lemma capTo_reached:
  "limitReached limit xs \<Longrightarrow> capTo limit (xs @ ys) = capTo limit xs"
  by (cases limit) (auto simp add: capTo_def limitReached_def ceiling_below)

lemma capTo_not_reached:
  assumes "\<not> limitReached limit xs"
  shows "capTo limit xs = xs"
proof (cases limit)
  case (Fin q)
  show ?thesis
  proof (cases "0 < q")
    case True
    have "rat_of_nat (length xs) < q" using assms True Fin by (simp add: limitReached_def)
    then have "length xs < nat \<lceil>q\<rceil>" by (rule ceiling_above)
    then show ?thesis using True Fin by (simp add: capTo_def)
  next
    case False
    then show ?thesis using Fin by (simp add: capTo_def)
  qed
qed (simp_all add: capTo_def)

lemma capTo_just_reached:
  assumes "\<not> limitReached limit results" and "limitReached limit (results @ [x])"
  shows "capTo limit (results @ x # ys) = results @ [x]"
proof -
  have "capTo limit ((results @ [x]) @ ys) = capTo limit (results @ [x])"
    using assms(2) by (rule capTo_reached)
  moreover have "capTo limit (results @ [x]) = results @ [x]"
  proof (cases limit)
    case (Fin q)
    have q: "0 < q" "q \<le> rat_of_nat (length (results @ [x]))"
      using assms(2) Fin by (simp_all add: limitReached_def)
    have "rat_of_nat (length results) < q" using assms(1) Fin q by (simp add: limitReached_def)
    then have "length results < nat \<lceil>q\<rceil>" by (rule ceiling_above)
    then show ?thesis using Fin q by (simp add: capTo_def)
  qed (simp_all add: capTo_def)
  ultimately show ?thesis by simp
qed

lemma pushVariants_cap:
  "\<not> limitReached limit results \<Longrightarrow>
   pushVariants limit p vs results =
     capTo limit (results @ map (\<lambda>v. \<lparr>product = p, variant = v\<rparr>) vs)"
proof (induction vs arbitrary: results)
  case Nil
  then show ?case
    by (simp add: capTo_not_reached)
next
  case (Cons v vs)
  show ?case
  proof (cases "limitReached limit (results @ [\<lparr>product = p, variant = v\<rparr>])")
    case True
    with Cons.prems show ?thesis
      by (simp add: capTo_just_reached Let_def)
  next
    case False
    with Cons.IH [of "results @ [\<lparr>product = p, variant = v\<rparr>]"] show ?thesis
      by (simp add: Let_def)
  qed
qed

lemma capTo_capTo_append:
  "capTo limit (capTo limit xs @ ys) = capTo limit (xs @ ys)"
proof -
  have "take n (take n xs @ ys) = take n (xs @ ys)" for n
    by (cases "n \<le> length xs") (simp_all add: min_def)
  then show ?thesis
    by (simp add: capTo_def split: jsnum.splits)
qed

lemma pushProducts_cap:
  "\<not> limitReached limit results \<Longrightarrow>
   pushProducts limit ps results = capTo limit (results @ entriesOf ps)"
proof (induction ps arbitrary: results)
  case Nil
  then show ?case
    by (simp add: entriesOf_def capTo_not_reached)
next
  case (Cons p ps)
  let ?r1 = "capTo limit (results @ map (\<lambda>v. \<lparr>product = p, variant = v\<rparr>) (variants p))"
  have r1: "pushVariants limit p (variants p) results = ?r1"
    using Cons.prems by (rule pushVariants_cap)
  show ?case
  proof (cases "limitReached limit ?r1")
    case True
    have "capTo limit (results @ entriesOf (p # ps)) = capTo limit (?r1 @ entriesOf ps)"
      by (simp add: capTo_capTo_append entriesOf_def)
    also have "\<dots> = capTo limit ?r1"
      using True by (rule capTo_reached)
    also have "\<dots> = ?r1"
      using capTo_capTo_append [of limit _ "[]"] by simp
    finally show ?thesis
      using True by (simp add: r1 Let_def)
  next
    case False
    have "pushProducts limit (p # ps) results = capTo limit (?r1 @ entriesOf ps)"
      using False Cons.IH [OF False] by (simp add: r1 Let_def)
    then show ?thesis
      by (simp add: capTo_capTo_append entriesOf_def)
  qed
qed


lemma shopifyGet_catalog:
  "servesCatalog srv cat \<Longrightarrow>
   shopifyGet srv since_id w = (Inr (catalogPage cat since_id), emit (ShopifyGet since_id) w)"
  by (simp add: servesCatalog_def shopifyGet_def catalogServer_def ok_def)

lemma sorted_last_max:
  "sorted_wrt (\<lambda>a b. product_id a < product_id b) xs \<Longrightarrow> x \<in> set xs \<Longrightarrow>
   product_id x \<le> product_id (last xs)"
proof (induction xs)
  case Nil
  then show ?case by simp
next
  case (Cons y ys)
  then show ?case
    by (cases "ys = []") (auto simp add: less_imp_le dest: order.strict_trans2)
qed

lemma filter_above_last_take:
  assumes "sorted_wrt (\<lambda>a b. product_id a < product_id b) xs" and "0 < n" and "n \<le> length xs"
  shows "filter (\<lambda>p. product_id (last (take n xs)) < product_id p) xs = drop n xs"
proof -
  let ?t = "take n xs" and ?d = "drop n xs"
  have "sorted_wrt (\<lambda>a b. product_id a < product_id b) (?t @ ?d)"
    using assms(1) by (simp only: append_take_drop_id)
  then have st: "sorted_wrt (\<lambda>a b. product_id a < product_id b) ?t"
    and cross: "\<forall>x\<in>set ?t. \<forall>y\<in>set ?d. product_id x < product_id y"
    unfolding sorted_wrt_append by blast+
  have tne: "?t \<noteq> []"
    using assms(2,3) by auto
  then have lt: "last ?t \<in> set ?t"
    by simp
  have low: "\<forall>x\<in>set ?t. \<not> product_id (last ?t) < product_id x"
    using st sorted_last_max [of ?t] by (auto simp add: not_less)
  have high: "\<forall>x\<in>set ?d. product_id (last ?t) < product_id x"
    using cross lt by blast
  have "filter (\<lambda>p. product_id (last ?t) < product_id p) ?t = []"
    using low by (simp add: filter_empty_conv)
  moreover have "filter (\<lambda>p. product_id (last ?t) < product_id p) ?d = ?d"
    using high by (simp add: filter_id_conv)
  ultimately have "filter (\<lambda>p. product_id (last ?t) < product_id p) (?t @ ?d) = ?d"
    by (simp only: filter_append append_Nil)
  then show ?thesis
    by (simp only: append_take_drop_id)
qed

lemma next_page:
  assumes sorted: "sorted_wrt (\<lambda>a b. product_id a < product_id b) cat"
    and r: "filter (\<lambda>p. since_id < product_id p) cat = r"
    and len: "250 \<le> length r"
  shows "filter (\<lambda>p. product_id (last (take 250 r)) < product_id p) cat = drop 250 r"
proof -
  let ?s1 = "product_id (last (take 250 r))"
  have sr: "sorted_wrt (\<lambda>a b. product_id a < product_id b) r"
    using sorted r sorted_wrt_filter by blast
  have "last (take 250 r) \<in> set (take 250 r)"
    using len by (intro last_in_set) auto
  then have "last (take 250 r) \<in> set r"
    by (rule in_set_takeD)
  then have above: "since_id < ?s1"
    using r by auto
  have "filter (\<lambda>p. ?s1 < product_id p) cat = filter (\<lambda>p. ?s1 < product_id p) r"
  proof -
    have "filter (\<lambda>p. ?s1 < product_id p) r
          = filter (\<lambda>p. since_id < product_id p \<and> ?s1 < product_id p) cat"
      using r by (auto simp add: conj_commute)
    also have "\<dots> = filter (\<lambda>p. ?s1 < product_id p) cat"
      using above by (intro filter_cong) auto
    finally show ?thesis by simp
  qed
  also have "\<dots> = drop 250 r"
    using sr len by (intro filter_above_last_take) auto
  finally show ?thesis .
qed

lemma entriesOf_append: "entriesOf (xs @ ys) = entriesOf xs @ entriesOf ys"
  by (simp add: entriesOf_def)

lemma entriesOf_take_drop: "entriesOf (take n xs) @ entriesOf (drop n xs) = entriesOf xs"
  using entriesOf_append [of "take n xs" "drop n xs"] by simp


lemma cond_not_reached:
  "limitLe0 limit \<or> belowLimit results limit \<Longrightarrow> \<not> limitReached limit results"
  by (cases limit) (auto simp add: limitLe0_def belowLimit_def limitReached_def)

lemma not_cond_reached:
  "limitLe0 limit \<or> belowLimit results limit \<Longrightarrow>
   \<not> (limitLe0 limit \<or> belowLimit results1 limit) \<Longrightarrow> limitReached limit results1"
  by (cases limit) (auto simp add: limitLe0_def belowLimit_def limitReached_def)

lemma capTo_idem: "capTo limit (capTo limit xs) = capTo limit xs"
  using capTo_capTo_append [of limit xs "[]"] by simp

lemma scanResult_step:
  assumes "limitLe0 limit \<or> belowLimit results limit"
  shows "scanResult limit (capTo limit (results @ entriesOf (take n r))) (drop n r)
         = capTo limit (results @ entriesOf r)"
proof -
  let ?r1 = "capTo limit (results @ entriesOf (take n r))"
  have full: "capTo limit (?r1 @ entriesOf (drop n r)) = capTo limit (results @ entriesOf r)"
    by (simp add: capTo_capTo_append entriesOf_take_drop)
  show ?thesis
  proof (cases "limitLe0 limit \<or> belowLimit ?r1 limit")
    case True
    then show ?thesis
      by (simp add: scanResult_def full)
  next
    case False
    with assms have "limitReached limit ?r1"
      by (rule not_cond_reached)
    then have "capTo limit (?r1 @ entriesOf (drop n r)) = capTo limit ?r1"
      by (rule capTo_reached)
    with full have "capTo limit (results @ entriesOf r) = ?r1"
      by (simp add: capTo_idem)
    with False show ?thesis
      by (simp add: scanResult_def)
  qed
qed

lemma listVariantsLoop_catalog:
  assumes srv: "servesCatalog srv cat"
    and sorted: "sorted_wrt (\<lambda>a b. product_id a < product_id b) cat"
  shows "filter (\<lambda>p. since_id < product_id p) cat = r \<Longrightarrow>
         \<exists>w1. listVariantsLoop srv limit since_id results w = Some (Inr (scanResult limit results r), w1)"
proof (induction r arbitrary: since_id results w rule: length_induct)
  case (1 r)
  show ?case
  proof (cases "limitLe0 limit \<or> belowLimit results limit")
    case False
    then show ?thesis
      by (subst listVariantsLoop.simps) (simp add: scanResult_def)
  next
    case cond: True
    have page: "catalogPage cat since_id = take 250 r"
      using "1.prems" by (simp add: catalogPage_def)
    have push: "pushProducts limit (take 250 r) results = capTo limit (results @ entriesOf (take 250 r))"
      using cond by (intro pushProducts_cap cond_not_reached)
    show ?thesis
    proof (cases "length r < 250")
      case True
      then have "take 250 r = r" by simp
      with cond push True show ?thesis
        by (subst listVariantsLoop.simps)
           (auto simp add: shopifyGet_catalog [OF srv] page scanResult_def Let_def
                 capTo_not_reached [OF cond_not_reached] entriesOf_def [of "[]"])
    next
      case False
      then have len: "250 \<le> length r" by simp
      then have ne: "take 250 r \<noteq> []" and full: "length (take 250 r) = 250"
        by auto
      have nxt: "filter (\<lambda>p. product_id (last (take 250 r)) < product_id p) cat = drop 250 r"
        using sorted "1.prems" len by (rule next_page)
      have "length (drop 250 r) < length r"
        using len by simp
      with "1.IH" nxt obtain w1 where
        "listVariantsLoop srv limit (product_id (last (take 250 r)))
           (capTo limit (results @ entriesOf (take 250 r))) (emit (ShopifyGet since_id) w)
         = Some (Inr (scanResult limit (capTo limit (results @ entriesOf (take 250 r))) (drop 250 r)), w1)"
        by blast
      then have "listVariantsLoop srv limit since_id results w
                 = Some (Inr (capTo limit (results @ entriesOf r)), w1)"
        using cond ne full
        by (subst listVariantsLoop.simps)
           (simp add: shopifyGet_catalog [OF srv] page push Let_def scanResult_step [OF cond])
      with cond show ?thesis
        by (auto simp add: scanResult_def)
    qed
  qed
qed


lemma matchVariants_filter:
  "matchVariants t p vs ms =
     ms @ filter (\<lambda>e. trimmedSku (variant e) = t) (map (\<lambda>v. \<lparr>product = p, variant = v\<rparr>) vs)"
  by (induction vs arbitrary: ms) simp_all

lemma matchProducts_filter:
  "matchProducts t ps ms = ms @ filter (\<lambda>e. trimmedSku (variant e) = t) (entriesOf ps)"
  by (induction ps arbitrary: ms) (simp_all add: entriesOf_def matchVariants_filter)

lemma findVariantsLoop_catalog:
  assumes srv: "servesCatalog srv cat"
    and sorted: "sorted_wrt (\<lambda>a b. product_id a < product_id b) cat"
  shows "filter (\<lambda>p. since_id < product_id p) cat = r \<Longrightarrow>
         \<exists>w1. findVariantsLoop srv t since_id ms w
               = Some (Inr (ms @ filter (\<lambda>e. trimmedSku (variant e) = t) (entriesOf r)), w1)"
proof (induction r arbitrary: since_id ms w rule: length_induct)
  case (1 r)
  have page: "catalogPage cat since_id = take 250 r"
    using "1.prems" by (simp add: catalogPage_def)
  show ?case
  proof (cases "length r < 250")
    case True
    then have "take 250 r = r" by simp
    with True show ?thesis
      by (subst findVariantsLoop.simps)
         (auto simp add: shopifyGet_catalog [OF srv] page Let_def matchProducts_filter
               entriesOf_def [of "[]"])
  next
    case False
    then have len: "250 \<le> length r" by simp
    then have ne: "take 250 r \<noteq> []" and full: "length (take 250 r) = 250"
      by auto
    have nxt: "filter (\<lambda>p. product_id (last (take 250 r)) < product_id p) cat = drop 250 r"
      using sorted "1.prems" len by (rule next_page)
    have "length (drop 250 r) < length r"
      using len by simp
    with "1.IH" nxt obtain w1 where
      "findVariantsLoop srv t (product_id (last (take 250 r)))
         (matchProducts t (take 250 r) ms) (emit (ShopifyGet since_id) w)
       = Some (Inr (matchProducts t (take 250 r) ms
                    @ filter (\<lambda>e. trimmedSku (variant e) = t) (entriesOf (drop 250 r))), w1)"
      by blast
    moreover have "matchProducts t (take 250 r) ms
                    @ filter (\<lambda>e. trimmedSku (variant e) = t) (entriesOf (drop 250 r))
                   = ms @ filter (\<lambda>e. trimmedSku (variant e) = t) (entriesOf r)"
      using entriesOf_take_drop [of 250 r, symmetric] by (simp add: matchProducts_filter)
    ultimately have "findVariantsLoop srv t since_id ms w
               = Some (Inr (ms @ filter (\<lambda>e. trimmedSku (variant e) = t) (entriesOf r)), w1)"
      using ne full
      by (subst findVariantsLoop.simps) (simp add: shopifyGet_catalog [OF srv] page Let_def)
    then show ?thesis
      by blast
  qed
qed

lemma listVariantsLoop_world:
  "listVariantsLoop srv limit since_id results w = Some y \<Longrightarrow>
   \<exists>cs. snd y = w\<lparr>trace := trace w @ map ShopifyGet cs\<rparr>"
proof (induction rule: listVariantsLoop.raw_induct [rotated 1, consumes 1])
  case (1 loop srv limit since_id results w y)
  show ?case
  proof (cases "limitLe0 limit \<or> belowLimit results limit")
    case False
    with "1.hyps" have "snd y = w\<lparr>trace := trace w @ map ShopifyGet []\<rparr>"
      by auto
    then show ?thesis by blast
  next
    case True
    obtain x w1 where g: "shopifyGet srv since_id w = (x, w1)"
      by (cases "shopifyGet srv since_id w")
    then have w1: "w1 = w\<lparr>trace := trace w @ [ShopifyGet since_id]\<rparr>"
      by (auto simp add: shopifyGet_def Let_def emit_def split: if_splits option.splits)
    show ?thesis
    proof (cases "\<exists>products. x = Inr products \<and> products \<noteq> [] \<and> \<not> length products < 250")
      case False
      with "1.hyps" True g have "snd y = w1"
        by (auto simp add: Let_def split: sum.splits if_splits)
      with w1 have "snd y = w\<lparr>trace := trace w @ map ShopifyGet [since_id]\<rparr>"
        by simp
      then show ?thesis by blast
    next
      case cont: True
      then obtain products where x: "x = Inr products" "products \<noteq> []" "\<not> length products < 250"
        by blast
      with "1.hyps" True g have
        "loop srv limit (product_id (last products)) (pushProducts limit products results) w1 = Some y"
        by (auto simp add: Let_def)
      then obtain cs where "snd y = w1\<lparr>trace := trace w1 @ map ShopifyGet cs\<rparr>"
        using "1.IH" by blast
      with w1 have "snd y = w\<lparr>trace := trace w @ map ShopifyGet (since_id # cs)\<rparr>"
        by simp
      then show ?thesis by blast
    qed
  qed
qed


subsection \<open>Successful and failed catalog reads\<close>

lemma readsOk_append:
  "readsOk srv h (es @ fs) = (readsOk srv h es \<and> readsOk srv (h @ es) fs)"
  by (induction es arbitrary: h) auto

lemma okStep_refl: "okStep srv w w"
  unfolding okStep_def by (intro exI [of _ "[]"]) simp

lemma okStep_trans:
  assumes "okStep srv w w1" and "okStep srv w1 w2"
  shows "okStep srv w w2"
proof -
  from assms(1) obtain es ls where 1: "trace w1 = trace w @ es" "console w1 = console w @ ls"
    "mlPending w1 = mlPending w" "shopifyPending w1 = shopifyPending w" "readsOk srv (trace w) es"
    unfolding okStep_def by blast
  from assms(2) obtain fs ms where 2: "trace w2 = trace w1 @ fs" "console w2 = console w1 @ ms"
    "mlPending w2 = mlPending w1" "shopifyPending w2 = shopifyPending w1" "readsOk srv (trace w1) fs"
    unfolding okStep_def by blast
  have "trace w2 = trace w @ (es @ fs)" "console w2 = console w @ (ls @ ms)"
    "readsOk srv (trace w) (es @ fs)"
    using 1 2 by (simp_all add: readsOk_append)
  with 1 2 show ?thesis
    unfolding okStep_def by metis
qed

lemma okStep_failStep:
  assumes "okStep srv w w1" and "failStep srv w1 w2"
  shows "failStep srv w w2"
proof -
  from assms(1) obtain es ls where 1: "trace w1 = trace w @ es" "console w1 = console w @ ls"
    "mlPending w1 = mlPending w" "shopifyPending w1 = shopifyPending w" "readsOk srv (trace w) es"
    unfolding okStep_def by blast
  from assms(2) obtain fs c ms where 2: "trace w2 = trace w1 @ fs @ [ShopifyGet c]"
    "console w2 = console w1 @ ms" "mlPending w2 = mlPending w1"
    "shopifyPending w2 = shopifyPending w1" "readsOk srv (trace w1) fs"
    "\<not> readOk srv (trace w1 @ fs) c"
    unfolding failStep_def by blast
  have "trace w2 = trace w @ (es @ fs) @ [ShopifyGet c]" "console w2 = console w @ (ls @ ms)"
    "readsOk srv (trace w) (es @ fs)" "\<not> readOk srv (trace w @ (es @ fs)) c"
    using 1 2 by (simp_all add: readsOk_append)
  with 1 2 show ?thesis
    unfolding failStep_def by metis
qed

lemma okStep_log: "okStep srv w (console_log l w)"
  unfolding okStep_def by (intro exI [of _ "[]"] exI [of _ "[l]"]) (simp add: console_log_def)

lemma failStep_log: "failStep srv w w1 \<Longrightarrow> failStep srv w (console_log l w1)"
  unfolding failStep_def by (auto simp add: console_log_def)

lemma okStep_emit:
  assumes "eventOk srv (trace w) e"
  shows "okStep srv w (emit e w)"
  unfolding okStep_def using assms by (intro exI [of _ "[e]"] exI [of _ "[]"]) (simp add: emit_def)

lemma okStep_pending:
  "okStep srv w w1 \<Longrightarrow> mlPending w1 = mlPending w \<and> shopifyPending w1 = shopifyPending w"
  unfolding okStep_def by auto

lemma failStep_pending:
  "failStep srv w w1 \<Longrightarrow> mlPending w1 = mlPending w \<and> shopifyPending w1 = shopifyPending w"
  unfolding failStep_def by auto

lemma shopifyGet_Inr:
  "shopifyGet srv c w = (Inr ps, w1) \<Longrightarrow> okStep srv w w1"
  by (auto simp add: shopifyGet_def Let_def readOk_def split: if_splits option.splits
      intro!: okStep_emit)

lemma shopifyGet_Inl:
  assumes "shopifyGet srv c w = (Inl e, w1)"
  shows "failStep srv w w1"
proof -
  from assms have "w1 = emit (ShopifyGet c) w" and "\<not> readOk srv (trace w @ []) c"
    by (auto simp add: shopifyGet_def Let_def readOk_def split: if_splits option.splits)
  then show ?thesis
    unfolding failStep_def by (intro exI [of _ "[]"] exI [of _ c]) (simp add: emit_def)
qed

lemma stepOf_Inr [simp]: "stepOf srv w (Inr x, w1) = okStep srv w w1"
  by (simp add: stepOf_def)

lemma stepOf_Inl [simp]: "stepOf srv w (Inl e, w1) = failStep srv w w1"
  by (simp add: stepOf_def)

lemma stepOf_trans:
  "okStep srv w w1 \<Longrightarrow> stepOf srv w1 y \<Longrightarrow> stepOf srv w y"
  by (auto simp add: stepOf_def intro: okStep_trans okStep_failStep)

lemma shopifyGet_step: "stepOf srv w (shopifyGet srv c w)"
proof (cases "shopifyGet srv c w")
  case (Pair x w1)
  then show ?thesis
    by (cases x) (auto dest: shopifyGet_Inl shopifyGet_Inr)
qed

lemma listVariantsLoop_step:
  "listVariantsLoop srv limit since_id results w = Some y \<Longrightarrow> stepOf srv w y"
proof (induction rule: listVariantsLoop.raw_induct [rotated 1, consumes 1])
  case (1 loop srv limit since_id results w y)
  show ?case
  proof (cases "limitLe0 limit \<or> belowLimit results limit")
    case False
    with "1.hyps" show ?thesis
      by (auto simp add: okStep_refl)
  next
    case True
    obtain x w1 where g: "shopifyGet srv since_id w = (x, w1)"
      by (cases "shopifyGet srv since_id w")
    with shopifyGet_step [of srv w since_id] have s1: "stepOf srv w (x, w1)"
      by simp
    show ?thesis
    proof (cases "\<exists>products. x = Inr products \<and> products \<noteq> [] \<and> \<not> length products < 250")
      case False
      with "1.hyps" True g s1 show ?thesis
        by (auto simp add: Let_def split: sum.splits if_splits)
    next
      case cont: True
      then obtain products where x: "x = Inr products" "products \<noteq> []" "\<not> length products < 250"
        by blast
      with "1.hyps" True g have
        "loop srv limit (product_id (last products)) (pushProducts limit products results) w1 = Some y"
        by (auto simp add: Let_def)
      then have "stepOf srv w1 y"
        by (rule "1.IH")
      with s1 x show ?thesis
        by (auto intro: stepOf_trans)
    qed
  qed
qed

lemma findVariantsLoop_step:
  "findVariantsLoop srv t since_id ms w = Some y \<Longrightarrow> stepOf srv w y"
proof (induction rule: findVariantsLoop.raw_induct [rotated 1, consumes 1])
  case (1 loop srv t since_id ms w y)
  obtain x w1 where g: "shopifyGet srv since_id w = (x, w1)"
    by (cases "shopifyGet srv since_id w")
  with shopifyGet_step [of srv w since_id] have s1: "stepOf srv w (x, w1)"
    by simp
  show ?case
  proof (cases "\<exists>products. x = Inr products \<and> products \<noteq> [] \<and> \<not> length products < 250")
    case False
    with "1.hyps" g s1 show ?thesis
      by (auto simp add: Let_def split: sum.splits if_splits)
  next
    case cont: True
    then obtain products where x: "x = Inr products" "products \<noteq> []" "\<not> length products < 250"
      by blast
    with "1.hyps" g have
      "loop srv t (product_id (last products)) (matchProducts t products ms) w1 = Some y"
      by (auto simp add: Let_def)
    then have "stepOf srv w1 y"
      by (rule "1.IH")
    with s1 x show ?thesis
      by (auto intro: stepOf_trans)
  qed
qed

text \<open>Marketplace requests, storefront writes and timers are not catalog reads.\<close>

lemma okStep_emit_MlGet: "okStep srv w (emit (MlGet s) w)"
  by (rule okStep_emit) simp

lemma okStep_emit_Put: "okStep srv w (emit (ShopifyPut i p) w)"
  by (rule okStep_emit) simp

lemma okStep_emit_Sleep: "okStep srv w (emit (Sleep n) w)"
  by (rule okStep_emit) simp

lemma okStep_pending_update:
  "okStep srv (w\<lparr>mlPending := a\<rparr>) w1 \<Longrightarrow> okStep srv w (w1\<lparr>mlPending := mlPending w\<rparr>)"
  "okStep srv (w\<lparr>shopifyPending := b\<rparr>) w1 \<Longrightarrow> okStep srv w (w1\<lparr>shopifyPending := shopifyPending w\<rparr>)"
  unfolding okStep_def by auto

lemma fetchMlItem_okStep: "okStep srv w (snd (fetchMlItem srv s w))"
  by (simp add: fetchMlItem_def Let_def okStep_emit_MlGet split: option.splits)

lemma shopifyPut_okStep: "okStep srv w (snd (shopifyPut srv i p w))"
  by (simp add: shopifyPut_def Let_def okStep_emit_Put)

lemma mlQueue_add_okStep:
  assumes "\<And>w0. okStep srv w0 (snd (task w0))"
  shows "okStep srv w (snd (mlQueue_add task w))"
proof -
  let ?w0 = "w\<lparr>mlPending := mlPending w + 1\<rparr>"
  obtain r w1 where t: "task ?w0 = (r, w1)"
    by (cases "task ?w0")
  have s: "okStep srv ?w0 w1"
    using assms [of ?w0] t by simp
  then have "mlPending w1 = mlPending w + 1"
    using okStep_pending by fastforce
  with okStep_pending_update(1) [OF s] t show ?thesis
    by (simp add: mlQueue_add_def)
qed

lemma shopifyQueue_add_okStep:
  assumes "\<And>w0. okStep srv w0 (snd (task w0))"
  shows "okStep srv w (snd (shopifyQueue_add task w))"
proof -
  let ?w0 = "w\<lparr>shopifyPending := shopifyPending w + 1\<rparr>"
  obtain r w1 where t: "task ?w0 = (r, w1)"
    by (cases "task ?w0")
  have s: "okStep srv ?w0 w1"
    using assms [of ?w0] t by simp
  then have "shopifyPending w1 = shopifyPending w + 1"
    using okStep_pending by fastforce
  with okStep_pending_update(2) [OF s] t show ?thesis
    by (simp add: shopifyQueue_add_def)
qed


subsection \<open>Entries and lists never fail by themselves\<close>

lemma updateTask_Inr: "fst (updateTask srv v s p w) = Inr ()"
  by (simp add: updateTask_def split: prod.splits sum.splits)

lemma updateTask_okStep: "okStep srv w (snd (updateTask srv v s p w))"
proof -
  obtain r w1 where p: "shopifyPut srv (variant_id v) p w = (r, w1)"
    by (cases "shopifyPut srv (variant_id v) p w")
  with shopifyPut_okStep [of srv w "variant_id v" p] have "okStep srv w w1"
    by simp
  then show ?thesis
    using p by (auto simp add: updateTask_def split: sum.splits intro: okStep_trans okStep_log)
qed

lemma tryBlock_okStep: "okStep srv w (snd (tryBlock srv v s w))"
proof -
  obtain r w1 where f: "mlQueue_add (fetchMlItem srv s) w = (r, w1)"
    by (cases "mlQueue_add (fetchMlItem srv s) w")
  with mlQueue_add_okStep [of srv "fetchMlItem srv s" w] have 1: "okStep srv w w1"
    by (simp add: fetchMlItem_okStep)
  have 2: "okStep srv w1 (snd (shopifyQueue_add (updateTask srv v s p) w1))" for p
    by (rule shopifyQueue_add_okStep) (rule updateTask_okStep)
  show ?thesis
    using f 1 2
    by (auto simp add: tryBlock_def split: sum.splits ml_json.splits option.splits
        intro: okStep_trans okStep_log)
qed

lemma catchBlock_Inr: "fst (catchBlock s err w) = Inr ()"
  by (simp add: catchBlock_def Let_def)

lemma catchBlock_okStep: "okStep srv w (snd (catchBlock s err w))"
  by (auto simp add: catchBlock_def Let_def intro: okStep_trans okStep_log okStep_emit_Sleep)

lemma tryBlock_Inr: "fst (tryBlock srv v s w) = Inr u \<Longrightarrow> u = ()"
  by simp

lemma processVariantEntry_Inr: "fst (processVariantEntry srv entry w) = Inr ()"
  by (simp add: processVariantEntry_def Let_def catchBlock_Inr split: prod.splits sum.splits)

lemma processVariantEntry_okStep: "okStep srv w (snd (processVariantEntry srv entry w))"
proof -
  let ?s = "trimmedSku (variant entry)"
  obtain r w1 where t: "tryBlock srv (variant entry) ?s w = (r, w1)"
    by (cases "tryBlock srv (variant entry) ?s w")
  with tryBlock_okStep [of srv w "variant entry" ?s] have 1: "okStep srv w w1"
    by simp
  have 2: "okStep srv w1 (snd (catchBlock ?s err w1))" for err
    by (rule catchBlock_okStep)
  show ?thesis
    using t 1 2
    by (auto simp add: processVariantEntry_def Let_def okStep_refl split: sum.splits
        intro: okStep_trans)
qed

lemma processEntries_Inr: "fst (processEntries srv es w) = Inr ()"
proof (induction es arbitrary: w)
  case Nil
  show ?case by simp
next
  case (Cons e es)
  obtain r w1 where p: "processVariantEntry srv e w = (r, w1)"
    by (cases "processVariantEntry srv e w")
  with processVariantEntry_Inr [of srv e w] have "r = Inr ()"
    by simp
  with p Cons.IH show ?case
    by simp
qed

lemma processEntries_okStep: "okStep srv w (snd (processEntries srv es w))"
proof (induction es arbitrary: w)
  case Nil
  show ?case by (simp add: okStep_refl)
next
  case (Cons e es)
  obtain r w1 where p: "processVariantEntry srv e w = (r, w1)"
    by (cases "processVariantEntry srv e w")
  with processVariantEntry_Inr [of srv e w] processVariantEntry_okStep [of srv w e]
  have "r = Inr ()" and "okStep srv w w1"
    by simp_all
  with p Cons.IH [of w1] show ?case
    by (auto intro: okStep_trans)
qed

lemma processEntries_step: "stepOf srv w (processEntries srv es w)"
  using processEntries_Inr [of srv es w] processEntries_okStep [of srv w es]
  by (simp add: stepOf_def)


lemma awaitIdle_idle:
  "mlPending w = 0 \<Longrightarrow> shopifyPending w = 0 \<Longrightarrow> awaitIdle l w = Some (Inr (), console_log l w)"
  by (simp add: awaitIdle_def mlQueue_onIdle_def shopifyQueue_onIdle_def)




subsection \<open>The outcome of a run\<close>

lemma listVariantsBatch_step:
  "listVariantsBatch srv limit w = Some y \<Longrightarrow> stepOf srv w y"
  unfolding listVariantsBatch_def by (rule listVariantsLoop_step)





lemma skuListSource_okStep: "okStep srv w (snd (skuListSource cfg w))"
  by (simp add: skuListSource_def Let_def okStep_log okStep_refl)

lemma skuListSource_trace: "trace (snd (skuListSource cfg w)) = trace w"
  by (simp add: skuListSource_def Let_def console_log_def)




subsection \<open>A run over a served catalog returns\<close>

lemma sortedCatalog_sorted:
  "sortedCatalog cat \<Longrightarrow> sorted_wrt (\<lambda>a b. product_id a < product_id b) cat"
  by (simp add: sortedCatalog_def sorted_wrt_map)

lemma sortedCatalog_positive:
  "sortedCatalog cat \<Longrightarrow> filter (\<lambda>p. 0 < product_id p) cat = cat"
  by (simp add: sortedCatalog_def list_all_iff filter_id_conv)

lemma listVariantsBatch_catalog:
  assumes "servesCatalog srv cat" and "sortedCatalog cat"
  shows "\<exists>w1. listVariantsBatch srv limit w = Some (Inr (scanResult limit [] cat), w1)"
  unfolding listVariantsBatch_def
  using listVariantsLoop_catalog [OF assms(1) sortedCatalog_sorted [OF assms(2)]
      sortedCatalog_positive [OF assms(2)]]
  by blast

lemma findVariantsBySku_catalog:
  assumes "servesCatalog srv cat" and "sortedCatalog cat"
  shows "\<exists>w1. findVariantsBySku srv t w
          = Some (Inr (filter (\<lambda>e. trimmedSku (variant e) = t) (entriesOf cat)), w1)"
  unfolding findVariantsBySku_def
  using findVariantsLoop_catalog [OF assms(1) sortedCatalog_sorted [OF assms(2)]
      sortedCatalog_positive [OF assms(2)], of t "[]" w]
  by simp


lemma idle_after_step:
  assumes "stepOf srv w (Inr r, w1)" and "mlPending w = 0" and "shopifyPending w = 0"
  shows "awaitIdle l w1 = Some (Inr (), console_log l w1)"
  using assms okStep_pending [of srv w w1] by (simp add: awaitIdle_idle)






subsection \<open>Which SKUs are sent to the marketplace\<close>

lemma mlGets_append: "mlGets (xs @ ys) = mlGets xs @ mlGets ys"
  by (induction xs rule: mlGets.induct) simp_all

lemma shopifyGets_append: "shopifyGets (xs @ ys) = shopifyGets xs @ shopifyGets ys"
  by (induction xs rule: shopifyGets.induct) simp_all

lemma fetch_trace:
  "trace (snd (fetchMlItem srv s w)) = trace w @ [MlGet s]"
  by (simp add: fetchMlItem_def Let_def emit_def split: option.splits)

lemma mlQueue_add_fetch_trace:
  "trace (snd (mlQueue_add (fetchMlItem srv s) w)) = trace w @ [MlGet s]"
  using fetch_trace [of srv s "w\<lparr>mlPending := mlPending w + 1\<rparr>"]
  by (auto simp add: mlQueue_add_def split: prod.splits)

lemma updateTask_trace:
  "trace (snd (updateTask srv v s p w)) = trace w @ [ShopifyPut (variant_id v) p]"
  by (simp add: updateTask_def shopifyPut_def Let_def emit_def console_log_def)

lemma shopifyQueue_add_update_trace:
  "trace (snd (shopifyQueue_add (updateTask srv v s p) w)) = trace w @ [ShopifyPut (variant_id v) p]"
  using updateTask_trace [of srv v s p "w\<lparr>shopifyPending := shopifyPending w + 1\<rparr>"]
  by (auto simp add: shopifyQueue_add_def split: prod.splits)

lemma tryBlock_mlGets:
  "mlGets (trace (snd (tryBlock srv v s w))) = mlGets (trace w) @ [s]"
proof -
  obtain r w1 where f: "mlQueue_add (fetchMlItem srv s) w = (r, w1)"
    by (cases "mlQueue_add (fetchMlItem srv s) w")
  with mlQueue_add_fetch_trace [of srv s w] have "trace w1 = trace w @ [MlGet s]"
    by simp
  then show ?thesis
    using f shopifyQueue_add_update_trace [of srv v s _ w1]
    by (auto simp add: tryBlock_def mlGets_append console_log_def
        split: sum.splits ml_json.splits option.splits)
qed

lemma catchBlock_mlGets:
  "mlGets (trace (snd (catchBlock s err w))) = mlGets (trace w)"
  by (simp add: catchBlock_def Let_def emit_def console_log_def mlGets_append)

lemma processVariantEntry_mlGets:
  "mlGets (trace (snd (processVariantEntry srv e w))) = mlGets (trace w) @ skusOf [e]"
proof -
  let ?s = "trimmedSku (variant e)"
  obtain r w1 where t: "tryBlock srv (variant e) ?s w = (r, w1)"
    by (cases "tryBlock srv (variant e) ?s w")
  with tryBlock_mlGets [of srv "variant e" ?s w] have "mlGets (trace w1) = mlGets (trace w) @ [?s]"
    by simp
  then show ?thesis
    using t catchBlock_mlGets [of ?s _ w1]
    by (auto simp add: processVariantEntry_def Let_def skusOf_def nonEmpty_def split: sum.splits)
qed

lemma processEntries_Cons:
  "processEntries srv (e # rest) w = processEntries srv rest (snd (processVariantEntry srv e w))"
  using processVariantEntry_Inr [of srv e w]
  by (cases "processVariantEntry srv e w") simp

lemma skusOf_Cons: "skusOf (e # es) = skusOf [e] @ skusOf es"
  by (simp add: skusOf_def)

lemma processEntries_mlGets:
  "mlGets (trace (snd (processEntries srv es w))) = mlGets (trace w) @ skusOf es"
proof (induction es arbitrary: w)
  case Nil
  show ?case by (simp add: skusOf_def)
next
  case (Cons e es)
  show ?case
    using Cons.IH [of "snd (processVariantEntry srv e w)"] skusOf_Cons [of e es]
    by (simp only: processEntries_Cons processVariantEntry_mlGets append_assoc)
qed


subsection \<open>Failures of one entry\<close>






lemma mlGets_map_ShopifyGet: "mlGets (map ShopifyGet cs) = []"
  by (induction cs) simp_all

lemma scanResult_all: "scanResult (Fin 0) [] cat = entriesOf cat"
  by (simp add: scanResult_def limitLe0_def capTo_def)

lemma main_full_sync_catalog:
  assumes srv: "servesCatalog srv cat" and cat: "sortedCatalog cat"
    and cred: "credentials cfg" and full: "FULL_SYNC cfg"
  shows "\<exists>w. main cfg srv = Some (0, w) \<and> mlGets (trace w) = skusOf (entriesOf cat)"
proof -
  obtain l w0 where s: "skuListSource cfg world0 = (l, w0)"
    by (cases "skuListSource cfg world0")
  with skuListSource_okStep [of srv world0 cfg] skuListSource_trace [of cfg world0]
  have 0: "okStep srv world0 w0" and t0: "trace w0 = []"
    by (simp_all add: world0_def)
  let ?w0 = "console_log FullSyncLine w0"
  obtain w1 where l: "listVariantsBatch srv (Fin 0) ?w0 = Some (Inr (entriesOf cat), w1)"
    using listVariantsBatch_catalog [OF srv cat, of "Fin 0" ?w0] by (auto simp add: scanResult_all)
  then have 1: "okStep srv ?w0 w1"
    using listVariantsBatch_step by fastforce
  from l obtain cs where "w1 = ?w0\<lparr>trace := trace ?w0 @ map ShopifyGet cs\<rparr>"
    unfolding listVariantsBatch_def using listVariantsLoop_world by fastforce
  then have t1: "mlGets (trace w1) = []"
    using t0 by (simp add: console_log_def mlGets_map_ShopifyGet)
  obtain r w2 where p: "processEntries srv (entriesOf cat) w1 = (r, w2)"
    by (cases "processEntries srv (entriesOf cat) w1")
  with processEntries_Inr [of srv "entriesOf cat" w1] processEntries_okStep [of srv w1 "entriesOf cat"]
    processEntries_mlGets [of srv "entriesOf cat" w1] t1
  have r: "r = Inr ()" and 2: "okStep srv w1 w2" and t2: "mlGets (trace w2) = skusOf (entriesOf cat)"
    by simp_all
  have "okStep srv world0 w2"
    using 0 1 2 okStep_log okStep_trans by blast
  then have "awaitIdle SyncFinished w2 = Some (Inr (), console_log SyncFinished w2)"
    using okStep_pending [of srv world0 w2] by (simp add: awaitIdle_idle world0_def)
  with l p r s full cred have "main cfg srv = Some (0, console_log SyncFinished w2)"
    by (simp add: main_def credentials_def tryMain_def fullSyncBranch_def)
  with t2 show ?thesis
    by (simp add: console_log_def)
qed


subsection \<open>Failures do not abort the run\<close>


lemmas fixture_defs = mkEntry_def mkVariant_def mkProduct_def mkConfig_def shop_def shopPut_def
  mlAlways_def putAlways_def mlStatus_def mlPrice_def catalogServer_def servesCatalog_def



lemma full_sync_true: "FULL_SYNC (mkConfig b t ''true'' l f)"
  by (simp add: FULL_SYNC_def mkConfig_def orElse_def toLowerCase_def toLowerChar_def)

lemma credentials_mkConfig: "credentials (mkConfig b t fs l f)"
  by (simp add: credentials_def mkConfig_def orElse_def)




subsection \<open>A failed catalog read\<close>










subsection \<open>Evaluating a run\<close>

lemma findVariantsBySku_unfold:
  "findVariantsBySku srv t w =
     (case shopifyGet srv 0 w of
        (Inl err, w1) \<Rightarrow> Some (Inl err, w1)
      | (Inr products, w1) \<Rightarrow>
          if products = [] then Some (Inr [], w1)
          else if length products < 250 then Some (Inr (matchProducts t products []), w1)
          else findVariantsLoop srv t (product_id (last products)) (matchProducts t products []) w1)"
  unfolding findVariantsBySku_def
  by (subst findVariantsLoop.simps) (simp add: Let_def split: prod.splits sum.splits)

lemma listVariantsBatch_unfold:
  "listVariantsBatch srv limit w =
     (if limitLe0 limit \<or> belowLimit [] limit then
        (case shopifyGet srv 0 w of
           (Inl err, w1) \<Rightarrow> Some (Inl err, w1)
         | (Inr products, w1) \<Rightarrow>
             if products = [] then Some (Inr [], w1)
             else if length products < 250 then Some (Inr (pushProducts limit products []), w1)
             else listVariantsLoop srv limit (product_id (last products))
                    (pushProducts limit products []) w1)
      else Some (Inr [], w))"
  unfolding listVariantsBatch_def
  by (subst listVariantsLoop.simps) (simp add: Let_def split: prod.splits sum.splits)

lemmas config_defs = mkConfig_def BATCH_SIZE_def TEST_SKU_def FULL_SYNC_def orElse_def
  toLowerCase_def toLowerChar_def readSkuListFile_def parseSkuList_def nonEmpty_def
  startsWithHash_def trim_def trimStart_def trimEnd_def isWhiteSpace_def parseInt10_def
  isDigit_def digitsVal_def digitVal_def credentials_def

lemmas service_defs = shop_def shopPut_def flakyShop_def flakyServer_def catalogServer_def
  catalogPage_def mlAlways_def putAlways_def mlStatus_def mlPrice_def mkProduct_def mkVariant_def
  mkEntry_def

lemmas run_defs = main_def tryMain_def skuListSource_def testSkuFirst_def fullSyncBranch_def
  skuListBranch_def batchBranch_def awaitIdle_def mlQueue_onIdle_def shopifyQueue_onIdle_def
  processVariantEntry_def tryBlock_def catchBlock_def updateTask_def mlQueue_add_def
  shopifyQueue_add_def fetchMlItem_def shopifyGet_def shopifyPut_def trimmedSku_def
  emit_def console_log_def world0_def ok_def Error_def Let_def limitLe0_def belowLimit_def
  limitReached_def retryAfterOr5_def

lemma needsUpdate_10_10: "\<not> needsUpdate (JStr ''10.00'') (JNum (Fin 10))"
  by (simp add: needsUpdate_def parse_defs double_defs)



subsection \<open>Catalog read failures are fatal\<close>




subsection \<open>The source of the SKU list\<close>

lemma skuListSource_file:
  "readSkuListFile cfg \<noteq> [] \<Longrightarrow> fst (skuListSource cfg w) = readSkuListFile cfg"
  by (simp add: skuListSource_def Let_def)

lemma parseSkuList_Nil: "parseSkuList [] = []"
  by (simp add: parseSkuList_def nonEmpty_def trim_def trimStart_def trimEnd_def)

lemma skuListSource_secret:
  "readSkuListFile cfg = [] \<Longrightarrow>
   fst (skuListSource cfg w) = parseSkuList (orElse (env_SKU_LIST cfg) [])"
  by (simp add: skuListSource_def Let_def parseSkuList_Nil)

lemma tryMain_branch:
  "tryMain cfg srv w =
     (if FULL_SYNC cfg then fullSyncBranch srv (snd (skuListSource cfg w))
      else if testSkuFirst (TEST_SKU cfg) (fst (skuListSource cfg w)) \<noteq> []
      then skuListBranch srv (testSkuFirst (TEST_SKU cfg) (fst (skuListSource cfg w)))
             (snd (skuListSource cfg w))
      else batchBranch srv (BATCH_SIZE cfg) (snd (skuListSource cfg w)))"
  by (simp add: tryMain_def Let_def split: prod.splits)

subsection \<open>Two pages\<close>







subsection \<open>Pagination stops\<close>








lemma shop_serves: "servesCatalog (shop cat r) cat"
  by (simp add: servesCatalog_def shop_def)





subsection \<open>A run over a SKU list\<close>

lemma shopifyGet_mlGets: "mlGets (trace (snd (shopifyGet srv c w))) = mlGets (trace w)"
  by (simp add: shopifyGet_def Let_def emit_def mlGets_append split: option.splits)

lemma listVariantsLoop_mlGets:
  "listVariantsLoop srv limit c results w = Some y \<Longrightarrow> mlGets (trace (snd y)) = mlGets (trace w)"
  using listVariantsLoop_world [of srv limit c results w y]
  by (auto simp add: mlGets_append mlGets_map_ShopifyGet)

lemma findVariantsLoop_mlGets:
  "findVariantsLoop srv t c ms w = Some y \<Longrightarrow> mlGets (trace (snd y)) = mlGets (trace w)"
proof (induction rule: findVariantsLoop.raw_induct [rotated 1, consumes 1])
  case (1 loop srv t c ms w y)
  obtain x w1 where g: "shopifyGet srv c w = (x, w1)"
    by (cases "shopifyGet srv c w")
  with shopifyGet_mlGets [of srv c w] have m1: "mlGets (trace w1) = mlGets (trace w)"
    by simp
  show ?case
  proof (cases "\<exists>products. x = Inr products \<and> products \<noteq> [] \<and> \<not> length products < 250")
    case False
    with "1.hyps" g m1 show ?thesis
      by (auto simp add: Let_def split: sum.splits if_splits)
  next
    case True
    then obtain products where x: "x = Inr products" "products \<noteq> []" "\<not> length products < 250"
      by blast
    with "1.hyps" g have
      "loop srv t (product_id (last products)) (matchProducts t products ms) w1 = Some y"
      by (auto simp add: Let_def)
    then have "mlGets (trace (snd y)) = mlGets (trace w1)"
      by (rule "1.IH")
    with m1 show ?thesis
      by simp
  qed
qed

lemma findVariantsBySku_served:
  assumes "servesCatalog srv cat" and "sortedCatalog cat"
  shows "\<exists>w1. findVariantsBySku srv t w = Some (Inr (lookup cat t), w1)
            \<and> okStep srv w w1 \<and> mlGets (trace w1) = mlGets (trace w)"
proof -
  obtain w1 where f: "findVariantsBySku srv t w = Some (Inr (lookup cat t), w1)"
    using findVariantsBySku_catalog [OF assms] by (auto simp add: lookup_def)
  then have "okStep srv w w1" and "mlGets (trace w1) = mlGets (trace w)"
    using findVariantsLoop_step [of srv t 0 "[]" w] findVariantsLoop_mlGets [of srv t 0 "[]" w]
    by (auto simp add: findVariantsBySku_def)
  with f show ?thesis
    by blast
qed

lemma listVariantsBatch_served:
  assumes "servesCatalog srv cat" and "sortedCatalog cat"
  shows "\<exists>w1. listVariantsBatch srv limit w = Some (Inr (scanResult limit [] cat), w1)
            \<and> okStep srv w w1 \<and> mlGets (trace w1) = mlGets (trace w)"
proof -
  obtain w1 where f: "listVariantsBatch srv limit w = Some (Inr (scanResult limit [] cat), w1)"
    using listVariantsBatch_catalog [OF assms] by blast
  then have "okStep srv w w1" and "mlGets (trace w1) = mlGets (trace w)"
    using listVariantsLoop_step [of srv limit 0 "[]" w] listVariantsLoop_mlGets [of srv limit 0 "[]" w]
    by (auto simp add: listVariantsBatch_def)
  with f show ?thesis
    by blast
qed

lemma log_mlGets: "mlGets (trace (console_log l w)) = mlGets (trace w)"
  by (simp add: console_log_def)

lemma processSkuList_served:
  assumes srv: "servesCatalog srv cat" and cat: "sortedCatalog cat"
  shows "\<exists>w1. processSkuList srv skus w = Some (Inr (), w1) \<and> okStep srv w w1
            \<and> mlGets (trace w1) = mlGets (trace w) @ concat (map (\<lambda>s. skusOf (lookup cat s)) skus)"
proof (induction skus arbitrary: w)
  case Nil
  show ?case by (simp add: okStep_refl)
next
  case (Cons s rest)
  let ?w0 = "console_log (ProcessingSku s) w"
  obtain w1 where f: "findVariantsBySku srv s ?w0 = Some (Inr (lookup cat s), w1)"
    and s1: "okStep srv ?w0 w1" and m1: "mlGets (trace w1) = mlGets (trace w)"
    using findVariantsBySku_served [OF srv cat, of s ?w0] by (auto simp add: log_mlGets)
  have s01: "okStep srv w w1"
    using s1 okStep_log okStep_trans by blast
  show ?case
  proof (cases "lookup cat s = []")
    case True
    let ?w2 = "console_log (NoVariantsFound s) w1"
    obtain w3 where p: "processSkuList srv rest ?w2 = Some (Inr (), w3)" and s3: "okStep srv ?w2 w3"
      and m3: "mlGets (trace w3) = mlGets (trace ?w2) @ concat (map (\<lambda>s. skusOf (lookup cat s)) rest)"
      using Cons.IH [of ?w2] by blast
    have "okStep srv w w3"
      using s01 s3 okStep_log okStep_trans by blast
    with f True p m3 m1 show ?thesis
      by (simp add: log_mlGets skusOf_def)
  next
    case False
    obtain r w2 where pe: "processEntries srv (lookup cat s) w1 = (r, w2)"
      by (cases "processEntries srv (lookup cat s) w1")
    with processEntries_Inr [of srv "lookup cat s" w1] processEntries_okStep [of srv w1 "lookup cat s"]
      processEntries_mlGets [of srv "lookup cat s" w1]
    have r: "r = Inr ()" and s2: "okStep srv w1 w2"
      and m2: "mlGets (trace w2) = mlGets (trace w1) @ skusOf (lookup cat s)"
      by simp_all
    obtain w3 where p: "processSkuList srv rest w2 = Some (Inr (), w3)" and s3: "okStep srv w2 w3"
      and m3: "mlGets (trace w3) = mlGets (trace w2) @ concat (map (\<lambda>s. skusOf (lookup cat s)) rest)"
      using Cons.IH [of w2] by blast
    have "okStep srv w w3"
      using s01 s2 s3 okStep_trans by blast
    with f False pe r p m3 m2 m1 show ?thesis
      by simp
  qed
qed

lemma main_sku_list_served:
  assumes srv: "servesCatalog srv cat" and cat: "sortedCatalog cat" and cred: "credentials cfg"
    and nofull: "\<not> FULL_SYNC cfg"
    and list: "testSkuFirst (TEST_SKU cfg) (fst (skuListSource cfg world0)) = skuList"
    and ne: "skuList \<noteq> []"
  shows "\<exists>w. main cfg srv = Some (0, w)
            \<and> mlGets (trace w) = concat (map (\<lambda>s. skusOf (lookup cat s)) skuList)"
proof -
  let ?w0 = "snd (skuListSource cfg world0)"
  let ?w1 = "console_log (ProcessingList (length skuList)) ?w0"
  have t0: "trace ?w1 = []" and s0: "okStep srv world0 ?w1"
    using skuListSource_trace [of cfg world0] skuListSource_okStep [of srv world0 cfg]
      okStep_log okStep_trans
    by (simp add: console_log_def world0_def, blast)
  obtain w2 where p: "processSkuList srv skuList ?w1 = Some (Inr (), w2)" and s2: "okStep srv ?w1 w2"
    and m2: "mlGets (trace w2) = mlGets (trace ?w1) @ concat (map (\<lambda>s. skusOf (lookup cat s)) skuList)"
    using processSkuList_served [OF srv cat, of skuList ?w1] by blast
  have "okStep srv world0 w2"
    using s0 s2 okStep_trans by blast
  then have idle: "awaitIdle SyncFinished w2 = Some (Inr (), console_log SyncFinished w2)"
    using okStep_pending [of srv world0 w2] by (simp add: awaitIdle_idle world0_def)
  have "tryMain cfg srv world0 = Some (Inr (), console_log SyncFinished w2)"
    using nofull list ne p idle by (simp add: tryMain_branch skuListBranch_def)
  with cred m2 t0 show ?thesis
    by (simp add: main_def credentials_def log_mlGets)
qed


subsection \<open>The working set of a run\<close>

lemma okStep_log_after: "okStep srv w w1 \<Longrightarrow> okStep srv w (console_log l w1)"
  using okStep_log okStep_trans by blast

lemma okStep_log_before: "okStep srv (console_log l w) w1 \<Longrightarrow> okStep srv w w1"
  using okStep_log okStep_trans by blast

lemma main_batch_served:
  assumes srv: "servesCatalog srv cat" and cat: "sortedCatalog cat" and cred: "credentials cfg"
    and nofull: "\<not> FULL_SYNC cfg"
    and nolist: "testSkuFirst (TEST_SKU cfg) (fst (skuListSource cfg world0)) = []"
  shows "\<exists>w. main cfg srv = Some (0, w)
            \<and> mlGets (trace w) = skusOf (scanResult (BATCH_SIZE cfg) [] cat)"
proof -
  let ?b = "scanResult (BATCH_SIZE cfg) [] cat"
  let ?w0 = "snd (skuListSource cfg world0)"
  have t0: "trace ?w0 = []" and s0: "okStep srv world0 ?w0"
    using skuListSource_trace [of cfg world0] skuListSource_okStep [of srv world0 cfg]
    by (simp_all add: world0_def)
  obtain w1 where l: "listVariantsBatch srv (BATCH_SIZE cfg) ?w0 = Some (Inr ?b, w1)"
    and s1: "okStep srv ?w0 w1" and m1: "mlGets (trace w1) = mlGets (trace ?w0)"
    using listVariantsBatch_served [OF srv cat, of "BATCH_SIZE cfg" ?w0] by blast
  let ?w2 = "console_log (ProcessingBatch (length ?b)) w1"
  obtain r w3 where p: "processEntries srv ?b ?w2 = (r, w3)"
    by (cases "processEntries srv ?b ?w2")
  with processEntries_Inr [of srv ?b ?w2] processEntries_okStep [of srv ?w2 ?b]
    processEntries_mlGets [of srv ?b ?w2]
  have r: "r = Inr ()" and s3: "okStep srv ?w2 w3"
    and m3: "mlGets (trace w3) = mlGets (trace ?w2) @ skusOf ?b"
    by simp_all
  have "okStep srv world0 w1"
    using s0 s1 by (rule okStep_trans)
  then have "okStep srv world0 ?w2"
    by (rule okStep_log_after)
  then have "okStep srv world0 w3"
    using s3 by (rule okStep_trans)
  then have idle: "awaitIdle SyncFinished w3 = Some (Inr (), console_log SyncFinished w3)"
    using okStep_pending [of srv world0 w3] by (simp add: awaitIdle_idle world0_def)
  have "tryMain cfg srv world0 = Some (Inr (), console_log SyncFinished w3)"
    using nofull nolist l p r idle by (simp add: tryMain_branch batchBranch_def)
  with cred m3 m1 t0 show ?thesis
    by (simp add: main_def credentials_def log_mlGets)
qed

lemma testSkuFirst_Nil: "testSkuFirst t l = [] \<longleftrightarrow> t = [] \<and> l = []"
  by (simp add: testSkuFirst_def)

text \<open>
  C4, as the code has it.  Take a storefront that serves a catalog and a configuration
  with credentials.  The first variant returns with status 0, and the items that it
  asks the marketplace for are, in this order of precedence: with \<open>FULL_SYNC\<close> true,
  the SKUs of the whole catalog, whatever the batch size, the file, the \<open>SKU_LIST\<close>
  variable and \<open>TEST_SKU\<close> are; otherwise, with a non-empty list in \<open>sku_list.txt\<close>,
  the SKUs of that list alone, looked up one after the other (\<open>TEST_SKU\<close> first),
  whatever \<open>SKU_LIST\<close> holds; otherwise, with a non-empty \<open>SKU_LIST\<close>, the SKUs of
  that list, looked up likewise; otherwise, with \<open>TEST_SKU\<close> set, that one SKU;
  otherwise the SKUs of the scan bounded by \<open>BATCH_SIZE\<close>.
\<close>

theorem working_set_precedence:
  assumes "servesCatalog srv cat" and "sortedCatalog cat" and "credentials cfg"
  shows "\<exists>w. main cfg srv = Some (0, w)
     \<and> mlGets (trace w) =
         (if FULL_SYNC cfg then skusOf (entriesOf cat)
          else if readSkuListFile cfg \<noteq> [] then
            concat (map (\<lambda>s. skusOf (lookup cat s))
                      (testSkuFirst (TEST_SKU cfg) (readSkuListFile cfg)))
          else if parseSkuList (orElse (env_SKU_LIST cfg) []) \<noteq> [] then
            concat (map (\<lambda>s. skusOf (lookup cat s))
                      (testSkuFirst (TEST_SKU cfg) (parseSkuList (orElse (env_SKU_LIST cfg) []))))
          else if TEST_SKU cfg \<noteq> [] then skusOf (lookup cat (TEST_SKU cfg))
          else skusOf (scanResult (BATCH_SIZE cfg) [] cat))"
proof (cases "FULL_SYNC cfg")
  case True
  then show ?thesis
    using main_full_sync_catalog [OF assms] by simp
next
  case nofull: False
  let ?l = "testSkuFirst (TEST_SKU cfg) (fst (skuListSource cfg world0))"
  show ?thesis
  proof (cases "readSkuListFile cfg = []")
    case False
    then have l: "?l = testSkuFirst (TEST_SKU cfg) (readSkuListFile cfg)" and ne: "?l \<noteq> []"
      by (simp_all add: skuListSource_file testSkuFirst_Nil)
    show ?thesis
      using main_sku_list_served [OF assms nofull l] ne l nofull False by simp
  next
    case nofile: True
    then have src: "fst (skuListSource cfg world0) = parseSkuList (orElse (env_SKU_LIST cfg) [])"
      by (rule skuListSource_secret)
    show ?thesis
    proof (cases "parseSkuList (orElse (env_SKU_LIST cfg) []) = []")
      case False
      then have ne: "?l \<noteq> []"
        by (simp add: src testSkuFirst_Nil)
      have l: "?l = testSkuFirst (TEST_SKU cfg) (parseSkuList (orElse (env_SKU_LIST cfg) []))"
        by (simp add: src)
      show ?thesis
        using main_sku_list_served [OF assms nofull l] ne l nofull nofile False by simp
    next
      case nosecret: True
      show ?thesis
      proof (cases "TEST_SKU cfg = []")
        case False
        then have l: "?l = [TEST_SKU cfg]"
          by (simp add: src nosecret testSkuFirst_def)
        show ?thesis
          using main_sku_list_served [OF assms nofull l] nofull nofile nosecret False by simp
      next
        case True
        then have "?l = []"
          by (simp add: src nosecret testSkuFirst_def)
        then show ?thesis
          using main_batch_served [OF assms nofull] nofull nofile nosecret True by simp
      qed
    qed
  qed
qed

lemma trimmedSku_P: "trimmedSku (mkVariant i ''P'' p) = ''P''"
  by (simp add: trimmedSku_def mkVariant_def trim_def trimStart_def trimEnd_def isWhiteSpace_def)

lemma trimmedSku_Q: "trimmedSku (mkVariant i ''Q'' p) = ''Q''"
  by (simp add: trimmedSku_def mkVariant_def trim_def trimStart_def trimEnd_def isWhiteSpace_def)

lemmas two_product_defs = lookup_def entriesOf_def mkProduct_def skusOf_def nonEmpty_def
  trimmedSku_P trimmedSku_Q scanResult_def belowLimit_def limitLe0_def capTo_def testSkuFirst_def

theorem working_set_precedence_witness:
  "(\<exists>w. main (mkConfig ''1'' '''' ''true'' ''Q'' (Some ''P''))
           (shop [mkProduct 1 [mkVariant 1 ''P'' ''1.00''], mkProduct 2 [mkVariant 2 ''Q'' ''2.00'']]
              (mlPrice 1)) = Some (0, w)
        \<and> mlGets (trace w) = [''P'', ''Q''])
   \<and> (\<exists>w. main (mkConfig ''1'' '''' ''false'' ''Q'' (Some ''P''))
           (shop [mkProduct 1 [mkVariant 1 ''P'' ''1.00''], mkProduct 2 [mkVariant 2 ''Q'' ''2.00'']]
              (mlPrice 1)) = Some (0, w)
        \<and> mlGets (trace w) = [''P''])
   \<and> (\<exists>w. main (mkConfig ''1'' '''' ''false'' ''Q'' None)
           (shop [mkProduct 1 [mkVariant 1 ''P'' ''1.00''], mkProduct 2 [mkVariant 2 ''Q'' ''2.00'']]
              (mlPrice 1)) = Some (0, w)
        \<and> mlGets (trace w) = [''Q''])
   \<and> (\<exists>w. main (mkConfig ''1'' '''' ''false'' '''' None)
           (shop [mkProduct 1 [mkVariant 1 ''P'' ''1.00''], mkProduct 2 [mkVariant 2 ''Q'' ''2.00'']]
              (mlPrice 1)) = Some (0, w)
        \<and> mlGets (trace w) = [''P''])"
proof -
  let ?cat = "[mkProduct 1 [mkVariant 1 ''P'' ''1.00''], mkProduct 2 [mkVariant 2 ''Q'' ''2.00'']]"
  let ?srv = "shop ?cat (mlPrice 1)"
  let ?full = "mkConfig ''1'' '''' ''true'' ''Q'' (Some ''P'')"
  let ?both = "mkConfig ''1'' '''' ''false'' ''Q'' (Some ''P'')"
  let ?secret = "mkConfig ''1'' '''' ''false'' ''Q'' None"
  let ?none = "mkConfig ''1'' '''' ''false'' '''' None"
  have cat: "servesCatalog ?srv ?cat" "sortedCatalog ?cat"
    by (simp_all add: shop_serves sortedCatalog_def mkProduct_def)
  have full: "FULL_SYNC ?full"
    by (rule full_sync_true)
  have both: "\<not> FULL_SYNC ?both" "readSkuListFile ?both = [''P'']" "TEST_SKU ?both = []"
    by (simp_all add: config_defs)
  have secret: "\<not> FULL_SYNC ?secret" "readSkuListFile ?secret = []" "TEST_SKU ?secret = []"
    "parseSkuList (orElse (env_SKU_LIST ?secret) []) = [''Q'']"
    by (simp_all add: config_defs)
  have none: "\<not> FULL_SYNC ?none" "readSkuListFile ?none = []" "TEST_SKU ?none = []"
    "parseSkuList (orElse (env_SKU_LIST ?none) []) = []" "BATCH_SIZE ?none = Fin 1"
    by (simp_all add: config_defs)
  have 1: "\<exists>w. main ?full ?srv = Some (0, w) \<and> mlGets (trace w) = [''P'', ''Q'']"
    using working_set_precedence [OF cat, of ?full] full
      credentials_mkConfig [of "''1''" "''''" "''true''" "''Q''" "Some ''P''"]
    by (simp add: two_product_defs)
  have 2: "\<exists>w. main ?both ?srv = Some (0, w) \<and> mlGets (trace w) = [''P'']"
    using working_set_precedence [OF cat, of ?both] both
      credentials_mkConfig [of "''1''" "''''" "''false''" "''Q''" "Some ''P''"]
    by (simp add: two_product_defs)
  have 3: "\<exists>w. main ?secret ?srv = Some (0, w) \<and> mlGets (trace w) = [''Q'']"
    using working_set_precedence [OF cat, of ?secret] secret
      credentials_mkConfig [of "''1''" "''''" "''false''" "''Q''" None]
    by (simp add: two_product_defs)
  have 4: "\<exists>w. main ?none ?srv = Some (0, w) \<and> mlGets (trace w) = [''P'']"
    using working_set_precedence [OF cat, of ?none] none
      credentials_mkConfig [of "''1''" "''''" "''false''" "''''" None]
    by (simp add: two_product_defs)
  from 1 2 3 4 show ?thesis
    by blast
qed

text \<open>
  C4 as stated (with no full-catalog flag and no SKU list the bounded default scan is
  selected) fails when \<open>TEST_SKU\<close> alone is set: no file and no \<open>SKU_LIST\<close> give a
  list, yet the run looks up \<open>TEST_SKU = Q\<close> only and never reaches the bounded scan,
  which would have asked for \<open>P\<close> and \<open>Q\<close>.
\<close>

lemma needsUpdate_2_2: "\<not> needsUpdate (JStr ''2.00'') (JNum (Fin 2))"
  by (simp add: needsUpdate_def parse_defs double_defs)

theorem test_sku_alone_counterexample:
  "\<not> FULL_SYNC (mkConfig ''200'' ''Q'' ''false'' '''' None)
   \<and> readSkuListFile (mkConfig ''200'' ''Q'' ''false'' '''' None) = []
   \<and> parseSkuList (orElse (env_SKU_LIST (mkConfig ''200'' ''Q'' ''false'' '''' None)) []) = []
   \<and> main (mkConfig ''200'' ''Q'' ''false'' '''' None)
          (shop [mkProduct 1 [mkVariant 1 ''P'' ''1.00''], mkProduct 2 [mkVariant 2 ''Q'' ''2.00'']]
             (mlPrice 2))
     = Some (0, \<lparr>trace = [ShopifyGet 0, MlGet ''Q''],
                 console = [ProcessingList 1, ProcessingSku ''Q'', NoChange 2 ''Q'', SyncFinished],
                 mlPending = 0, shopifyPending = 0\<rparr>)
   \<and> skusOf (scanResult (BATCH_SIZE (mkConfig ''200'' ''Q'' ''false'' '''' None)) []
               [mkProduct 1 [mkVariant 1 ''P'' ''1.00''], mkProduct 2 [mkVariant 2 ''Q'' ''2.00'']])
     = [''P'', ''Q'']"
proof -
  let ?cfg = "mkConfig ''200'' ''Q'' ''false'' '''' None"
  have b: "BATCH_SIZE ?cfg = Fin 200"
    by (simp add: config_defs)
  have 1: "\<not> FULL_SYNC ?cfg" "readSkuListFile ?cfg = []"
    "parseSkuList (orElse (env_SKU_LIST ?cfg) []) = []"
    by (simp_all add: config_defs)
  have 2: "main ?cfg (shop [mkProduct 1 [mkVariant 1 ''P'' ''1.00''], mkProduct 2 [mkVariant 2 ''Q'' ''2.00'']]
             (mlPrice 2))
     = Some (0, \<lparr>trace = [ShopifyGet 0, MlGet ''Q''],
                 console = [ProcessingList 1, ProcessingSku ''Q'', NoChange 2 ''Q'', SyncFinished],
                 mlPending = 0, shopifyPending = 0\<rparr>)"
    by (simp add: run_defs config_defs service_defs findVariantsBySku_unfold needsUpdate_2_2)
  have 3: "skusOf (scanResult (BATCH_SIZE ?cfg) []
               [mkProduct 1 [mkVariant 1 ''P'' ''1.00''], mkProduct 2 [mkVariant 2 ''Q'' ''2.00'']])
     = [''P'', ''Q'']"
    by (simp add: b two_product_defs)
  from 1 2 3 show ?thesis
    by blast
qed


subsection \<open>The second variant over a served catalog\<close>

lemma shopifyPut2_eq: "shopifyPut2 = shopifyPut"
  by (simp add: fun_eq_iff shopifyPut2_def shopifyPut_def)

lemma updateTask2_eq: "updateTask2 = updateTask"
  by (simp add: fun_eq_iff updateTask2_def updateTask_def shopifyPut2_eq)

lemma catchBlock2_eq: "catchBlock2 = catchBlock"
  by (simp add: fun_eq_iff catchBlock2_def catchBlock_def)

lemma tryBlock2_okStep: "okStep srv w (snd (tryBlock2 srv v s w))"
proof -
  obtain r w1 where f: "mlQueue_add (fetchMlItem srv s) w = (r, w1)"
    by (cases "mlQueue_add (fetchMlItem srv s) w")
  with mlQueue_add_okStep [of srv "fetchMlItem srv s" w] have 1: "okStep srv w w1"
    by (simp add: fetchMlItem_okStep)
  have 2: "okStep srv w1 (snd (shopifyQueue_add (updateTask srv v s p) w1))" for p
    by (rule shopifyQueue_add_okStep) (rule updateTask_okStep)
  show ?thesis
    using f 1 2
    by (auto simp add: tryBlock2_def fetchMlItem2_eq updateTask2_eq
        split: sum.splits ml_json.splits option.splits intro: okStep_trans)
qed

lemma tryBlock2_mlGets:
  "mlGets (trace (snd (tryBlock2 srv v s w))) = mlGets (trace w) @ [s]"
proof -
  obtain r w1 where f: "mlQueue_add (fetchMlItem srv s) w = (r, w1)"
    by (cases "mlQueue_add (fetchMlItem srv s) w")
  with mlQueue_add_fetch_trace [of srv s w] have "trace w1 = trace w @ [MlGet s]"
    by simp
  then show ?thesis
    using f shopifyQueue_add_update_trace [of srv v s _ w1]
    by (auto simp add: tryBlock2_def fetchMlItem2_eq updateTask2_eq mlGets_append
        split: sum.splits ml_json.splits option.splits)
qed

lemma processVariantEntry2_Inr: "fst (processVariantEntry2 srv entry w) = Inr ()"
  by (simp add: processVariantEntry2_def Let_def catchBlock2_eq catchBlock_Inr
      split: prod.splits sum.splits)

lemma processVariantEntry2_okStep: "okStep srv w (snd (processVariantEntry2 srv entry w))"
proof -
  let ?s = "trimmedSku (variant entry)"
  obtain r w1 where t: "tryBlock2 srv (variant entry) ?s w = (r, w1)"
    by (cases "tryBlock2 srv (variant entry) ?s w")
  with tryBlock2_okStep [of srv w "variant entry" ?s] have 1: "okStep srv w w1"
    by simp
  have 2: "okStep srv w1 (snd (catchBlock ?s err w1))" for err
    by (rule catchBlock_okStep)
  show ?thesis
    using t 1 2
    by (auto simp add: processVariantEntry2_def Let_def okStep_refl catchBlock2_eq
        split: sum.splits intro: okStep_trans)
qed

lemma processVariantEntry2_mlGets:
  "mlGets (trace (snd (processVariantEntry2 srv e w))) = mlGets (trace w) @ skusOf [e]"
proof -
  let ?s = "trimmedSku (variant e)"
  obtain r w1 where t: "tryBlock2 srv (variant e) ?s w = (r, w1)"
    by (cases "tryBlock2 srv (variant e) ?s w")
  with tryBlock2_mlGets [of srv "variant e" ?s w] have "mlGets (trace w1) = mlGets (trace w) @ [?s]"
    by simp
  then show ?thesis
    using t catchBlock_mlGets [of ?s _ w1]
    by (auto simp add: processVariantEntry2_def Let_def skusOf_def nonEmpty_def catchBlock2_eq
        split: sum.splits)
qed

lemma processEntries2_Cons:
  "processEntries2 srv (e # rest) w = processEntries2 srv rest (snd (processVariantEntry2 srv e w))"
  using processVariantEntry2_Inr [of srv e w]
  by (cases "processVariantEntry2 srv e w") simp

lemma processEntries2_Inr: "fst (processEntries2 srv es w) = Inr ()"
  by (induction es arbitrary: w) (simp_all only: processEntries2_Cons processEntries2.simps fst_conv)

lemma processEntries2_okStep: "okStep srv w (snd (processEntries2 srv es w))"
proof (induction es arbitrary: w)
  case Nil
  show ?case by (simp add: okStep_refl)
next
  case (Cons e es)
  show ?case
    using Cons.IH [of "snd (processVariantEntry2 srv e w)"] processVariantEntry2_okStep [of srv w e]
    by (simp only: processEntries2_Cons) (rule okStep_trans)
qed

lemma processEntries2_mlGets:
  "mlGets (trace (snd (processEntries2 srv es w))) = mlGets (trace w) @ skusOf es"
proof (induction es arbitrary: w)
  case Nil
  show ?case by (simp add: skusOf_def)
next
  case (Cons e es)
  show ?case
    using Cons.IH [of "snd (processVariantEntry2 srv e w)"] skusOf_Cons [of e es]
    by (simp only: processEntries2_Cons processVariantEntry2_mlGets append_assoc)
qed

lemma processEntries2_served:
  "\<exists>w1. processEntries2 srv es w = (Inr (), w1) \<and> okStep srv w w1
        \<and> mlGets (trace w1) = mlGets (trace w) @ skusOf es"
  using processEntries2_Inr [of srv es w] processEntries2_okStep [of srv w es]
    processEntries2_mlGets [of srv es w]
  by (cases "processEntries2 srv es w") simp

lemma skusOf_lookup:
  "t \<noteq> [] \<Longrightarrow> skusOf (lookup cat t) = replicate (length (lookup cat t)) t"
  by (simp add: skusOf_def lookup_def nonEmpty_def map_replicate_const [symmetric]
      filter_id_conv cong: map_cong)

lemma skusOf_filteredBatch2:
  "TEST_SKU cfg \<noteq> [] \<Longrightarrow>
   skusOf (filteredBatch2 cfg batch) = filter (\<lambda>s. s \<noteq> TEST_SKU cfg) (skusOf batch)"
  by (simp add: skusOf_def filteredBatch2_def filter_map comp_def conj_commute)


subsection \<open>The priority SKU\<close>

lemma processTestSku2_served:
  assumes srv: "servesCatalog srv cat" and cat: "sortedCatalog cat"
    and t: "TEST_SKU cfg = t" and ne: "t \<noteq> []"
  shows "\<exists>w1. processTestSku2 cfg srv w = Some (Inr (), w1) \<and> okStep srv w w1
            \<and> mlGets (trace w1) = mlGets (trace w) @ skusOf (lookup cat t)"
proof -
  let ?w0 = "console_log (TestSkuDetected t) w"
  obtain w1 where f: "findVariantsBySku srv t ?w0 = Some (Inr (lookup cat t), w1)"
    and s1: "okStep srv ?w0 w1" and m1: "mlGets (trace w1) = mlGets (trace w)"
    using findVariantsBySku_served [OF srv cat, of t ?w0] by (auto simp add: log_mlGets)
  have s01: "okStep srv w w1"
    using s1 by (rule okStep_log_before)
  show ?thesis
  proof (cases "lookup cat t = []")
    case True
    have "okStep srv w (console_log (NoTestSkuVariants t) w1)"
      using s01 by (rule okStep_log_after)
    with f True t ne m1 show ?thesis
      by (simp add: processTestSku2_def findVariantsBySku2_eq log_mlGets skusOf_def)
  next
    case False
    let ?w2 = "console_log (FoundTestSku (length (lookup cat t))) w1"
    obtain w3 where p: "processEntries2 srv (lookup cat t) ?w2 = (Inr (), w3)"
      and s3: "okStep srv ?w2 w3"
      and m3: "mlGets (trace w3) = mlGets (trace ?w2) @ skusOf (lookup cat t)"
      using processEntries2_served [of srv "lookup cat t" ?w2] by blast
    have "okStep srv w1 w3"
      using s3 by (rule okStep_log_before)
    with s01 have "okStep srv w w3"
      by (rule okStep_trans)
    then have "okStep srv w (console_log FinishedTestSku w3)"
      by (rule okStep_log_after)
    with f False t ne p m3 m1 show ?thesis
      by (simp add: processTestSku2_def findVariantsBySku2_eq log_mlGets)
  qed
qed

lemma main2_served:
  assumes srv: "servesCatalog srv cat" and cat: "sortedCatalog cat" and cred: "credentials cfg"
    and t: "TEST_SKU cfg = t" and ne: "t \<noteq> []"
    and limit: "limit = (if FULL_SYNC cfg then Fin 0 else BATCH_SIZE cfg)"
  shows "\<exists>w. main2 cfg srv = Some (0, w)
            \<and> mlGets (trace w) = replicate (length (lookup cat t)) t
                 @ filter (\<lambda>s. s \<noteq> t) (skusOf (scanResult limit [] cat))"
proof -
  obtain w1 where p1: "processTestSku2 cfg srv world0 = Some (Inr (), w1)"
    and s1: "okStep srv world0 w1" and m1: "mlGets (trace w1) = skusOf (lookup cat t)"
    using processTestSku2_served [OF srv cat t ne, of world0] by (auto simp add: world0_def)
  let ?b = "scanResult limit [] cat"
  obtain w2 where p2: "listVariantsBatch srv limit w1 = Some (Inr ?b, w2)"
    and s2: "okStep srv w1 w2" and m2: "mlGets (trace w2) = mlGets (trace w1)"
    using listVariantsBatch_served [OF srv cat, of limit w1] by blast
  let ?w3 = "console_log (ProcessingBatch2 (length (filteredBatch2 cfg ?b))) w2"
  obtain w4 where p4: "processEntries2 srv (filteredBatch2 cfg ?b) ?w3 = (Inr (), w4)"
    and s4: "okStep srv ?w3 w4"
    and m4: "mlGets (trace w4) = mlGets (trace ?w3) @ skusOf (filteredBatch2 cfg ?b)"
    using processEntries2_served [of srv "filteredBatch2 cfg ?b" ?w3] by blast
  have "okStep srv w2 w4"
    using s4 by (rule okStep_log_before)
  with okStep_trans [OF s1 s2] have "okStep srv world0 w4"
    by (rule okStep_trans)
  then have idle: "awaitIdle BatchFinished w4 = Some (Inr (), console_log BatchFinished w4)"
    using okStep_pending [of srv world0 w4] by (simp add: awaitIdle_idle world0_def)
  have "tryMain2 cfg srv world0 = Some (Inr (), console_log BatchFinished w4)"
    using p1 p2 p4 idle limit by (simp add: tryMain2_def listVariantsBatch2_eq Let_def)
  moreover have "mlGets (trace w4) = replicate (length (lookup cat t)) t
                 @ filter (\<lambda>s. s \<noteq> t) (skusOf ?b)"
    using m4 m2 m1 t ne skusOf_filteredBatch2 [of cfg ?b] skusOf_lookup [OF ne, of cat]
    by (simp add: log_mlGets)
  ultimately show ?thesis
    using cred by (simp add: main2_def credentials_def log_mlGets)
qed

lemma testSkuFirst_once:
  assumes "t \<noteq> []"
  shows "testSkuFirst t l = t # filter (\<lambda>s. s \<noteq> t) l"
    and "testSkuFirst t l ! 0 = t"
    and "count_list (testSkuFirst t l) t = 1"
  using assms by (simp_all add: testSkuFirst_def count_list_0_iff)

text \<open>
  C2, as the code has it.  When \<open>TEST_SKU\<close> is set, the SKU list that the first variant
  resolves has it at position 0 and exactly once, whether or not the file or
  \<open>SKU_LIST\<close> names it too; the rest of the list is the explicit list without it.
  Unless \<open>FULL_SYNC\<close> is true, this list is the working set: the run looks its SKUs up
  in order, and over a served catalog the marketplace requests of the run are those of
  the variants of \<open>TEST_SKU\<close> first, then those of the other SKUs of the list.  In the
  second variant, over a served catalog, the run first sends one request for every variant
  that carries \<open>TEST_SKU\<close>, and none of the requests that follow is for \<open>TEST_SKU\<close>.
\<close>

theorem test_sku_first:
  assumes "TEST_SKU cfg = t" and "t \<noteq> []"
    and "testSkuFirst t (fst (skuListSource cfg world0)) = skuList"
  shows "skuList ! 0 = t \<and> count_list skuList t = 1
       \<and> skuList = t # filter (\<lambda>s. s \<noteq> t) (fst (skuListSource cfg world0))
       \<and> (\<not> FULL_SYNC cfg \<longrightarrow>
            tryMain cfg srv world0 = skuListBranch srv skuList (snd (skuListSource cfg world0)))
       \<and> (servesCatalog srv cat \<and> sortedCatalog cat \<and> credentials cfg \<longrightarrow>
            (\<not> FULL_SYNC cfg \<longrightarrow>
               (\<exists>w. main cfg srv = Some (0, w)
                  \<and> mlGets (trace w) = skusOf (lookup cat t)
                       @ concat (map (\<lambda>s. skusOf (lookup cat s))
                                   (filter (\<lambda>s. s \<noteq> t) (fst (skuListSource cfg world0))))))
            \<and> (\<exists>w. main2 cfg srv = Some (0, w)
                  \<and> mlGets (trace w) = replicate (length (lookup cat t)) t
                       @ filter (\<lambda>s. s \<noteq> t)
                           (skusOf (scanResult (if FULL_SYNC cfg then Fin 0 else BATCH_SIZE cfg) [] cat))))"
proof (intro conjI impI)
  show l: "skuList = t # filter (\<lambda>s. s \<noteq> t) (fst (skuListSource cfg world0))"
    and "skuList ! 0 = t" and "count_list skuList t = 1"
    using testSkuFirst_once [OF assms(2), of "fst (skuListSource cfg world0)"] assms(3)
    by simp_all
  show "tryMain cfg srv world0 = skuListBranch srv skuList (snd (skuListSource cfg world0))"
    if "\<not> FULL_SYNC cfg"
    using that l assms(1,3) by (simp add: tryMain_branch)
  show "\<exists>w. main cfg srv = Some (0, w)
        \<and> mlGets (trace w) = skusOf (lookup cat t)
             @ concat (map (\<lambda>s. skusOf (lookup cat s))
                         (filter (\<lambda>s. s \<noteq> t) (fst (skuListSource cfg world0))))"
    if a: "servesCatalog srv cat \<and> sortedCatalog cat \<and> credentials cfg" and b: "\<not> FULL_SYNC cfg"
  proof -
    have "testSkuFirst (TEST_SKU cfg) (fst (skuListSource cfg world0)) = skuList" "skuList \<noteq> []"
      using l assms(1,3) by simp_all
    with a b obtain w where "main cfg srv = Some (0, w)"
      and "mlGets (trace w) = concat (map (\<lambda>s. skusOf (lookup cat s)) skuList)"
      using main_sku_list_served [of srv cat cfg skuList] by blast
    then show ?thesis
      by (subst (asm) l) auto
  qed
  show "\<exists>w. main2 cfg srv = Some (0, w)
        \<and> mlGets (trace w) = replicate (length (lookup cat t)) t
             @ filter (\<lambda>s. s \<noteq> t)
                 (skusOf (scanResult (if FULL_SYNC cfg then Fin 0 else BATCH_SIZE cfg) [] cat))"
    if a: "servesCatalog srv cat \<and> sortedCatalog cat \<and> credentials cfg"
  proof -
    from a have "servesCatalog srv cat" "sortedCatalog cat" "credentials cfg"
      by simp_all
    then show ?thesis
      using assms(1,2) by (rule main2_served) simp
  qed
qed

lemma trimmedSku_A: "trimmedSku (mkVariant i ''A'' p) = ''A''"
  by (simp add: trimmedSku_def mkVariant_def trim_def trimStart_def trimEnd_def isWhiteSpace_def)

lemma trimmedSku_B: "trimmedSku (mkVariant i ''B'' p) = ''B''"
  by (simp add: trimmedSku_def mkVariant_def trim_def trimStart_def trimEnd_def isWhiteSpace_def)

theorem test_sku_first_witness:
  "TEST_SKU (mkConfig ''200'' ''A'' ''false'' ''B,A,C'' None) = ''A''
   \<and> testSkuFirst ''A'' (fst (skuListSource (mkConfig ''200'' ''A'' ''false'' ''B,A,C'' None) world0))
       = [''A'', ''B'', ''C'']
   \<and> (\<exists>w. main (mkConfig ''200'' ''A'' ''false'' ''B,A,C'' None)
             (shop [mkProduct 1 [mkVariant 1 ''B'' ''10.00''], mkProduct 2 [mkVariant 2 ''A'' ''10.00'']]
                (mlPrice 10)) = Some (0, w)
         \<and> mlGets (trace w) = [''A'', ''B''])
   \<and> (\<exists>w. main2 (mkConfig ''200'' ''A'' ''false'' ''B,A,C'' None)
             (shop [mkProduct 1 [mkVariant 1 ''B'' ''10.00''], mkProduct 2 [mkVariant 2 ''A'' ''10.00'']]
                (mlPrice 10)) = Some (0, w)
         \<and> mlGets (trace w) = [''A'', ''B''])"
proof -
  let ?cfg = "mkConfig ''200'' ''A'' ''false'' ''B,A,C'' None"
  let ?cat = "[mkProduct 1 [mkVariant 1 ''B'' ''10.00''], mkProduct 2 [mkVariant 2 ''A'' ''10.00'']]"
  let ?srv = "shop ?cat (mlPrice 10)"
  have t: "TEST_SKU ?cfg = ''A''"
    by (simp add: config_defs)
  have nf: "\<not> FULL_SYNC ?cfg"
    by (simp add: config_defs)
  have b: "BATCH_SIZE ?cfg = Fin 200"
    by (simp add: config_defs)
  have src: "fst (skuListSource ?cfg world0) = [''B'', ''A'', ''C'']"
    by (simp add: skuListSource_def Let_def config_defs)
  have l: "testSkuFirst ''A'' (fst (skuListSource ?cfg world0)) = [''A'', ''B'', ''C'']"
    by (simp add: src testSkuFirst_def)
  have cat: "servesCatalog ?srv ?cat" "sortedCatalog ?cat"
    by (simp_all add: shop_serves sortedCatalog_def mkProduct_def)
  have la: "skusOf (lookup ?cat ''A'') = [''A'']" and lb: "skusOf (lookup ?cat ''B'') = [''B'']"
    and lc: "skusOf (lookup ?cat ''C'') = []" and n: "length (lookup ?cat ''A'') = 1"
    by (simp_all add: lookup_def entriesOf_def mkProduct_def skusOf_def nonEmpty_def
        trimmedSku_A trimmedSku_B)
  have sc: "skusOf (scanResult (Fin 200) [] ?cat) = [''B'', ''A'']"
    by (simp add: scanResult_def belowLimit_def capTo_def entriesOf_def mkProduct_def skusOf_def
        nonEmpty_def trimmedSku_A trimmedSku_B)
  note inst = test_sku_first [OF t _ l, of ?srv ?cat]
  have 1: "\<exists>w. main ?cfg ?srv = Some (0, w) \<and> mlGets (trace w) = [''A'', ''B'']"
    using inst cat nf src la lb lc credentials_mkConfig [of "''200''" "''A''" "''false''" "''B,A,C''" None]
    by simp
  have 2: "\<exists>w. main2 ?cfg ?srv = Some (0, w) \<and> mlGets (trace w) = [''A'', ''B'']"
    using inst cat nf b n sc credentials_mkConfig [of "''200''" "''A''" "''false''" "''B,A,C''" None]
    by simp
  from t l 1 2 show ?thesis
    by blast
qed

text \<open>
  C2 as stated (whenever \<open>TEST_SKU\<close> is configured, the working set has it at position
  0) fails in the first variant when \<open>FULL_SYNC\<close> is true: the resolved list is not used,
  the catalog is processed in catalog order, and here the SKU \<open>B\<close> is sent to the
  marketplace before \<open>TEST_SKU = A\<close>.
\<close>

theorem test_sku_full_sync_counterexample:
  "TEST_SKU (mkConfig ''200'' ''A'' ''true'' ''A,B'' None) = ''A''
   \<and> main (mkConfig ''200'' ''A'' ''true'' ''A,B'' None)
          (shop [mkProduct 1 [mkVariant 1 ''B'' ''10.00'', mkVariant 2 ''A'' ''10.00'']] (mlPrice 10))
     = Some (0, \<lparr>trace = [ShopifyGet 0, MlGet ''B'', MlGet ''A''],
                 console = [DetectedSecret 2, FullSyncLine, NoChange 1 ''B'', NoChange 2 ''A'',
                            SyncFinished],
                 mlPending = 0, shopifyPending = 0\<rparr>)
   \<and> mlGets [ShopifyGet 0, MlGet ''B'', MlGet ''A''] ! 0 = ''B''"
  by (simp add: run_defs config_defs service_defs listVariantsBatch_unfold needsUpdate_10_10)

end
